theory Spec2Isabelle
  imports Main "HOL-Library.Word"
begin

section \<open>Data model\<close>

text \<open>
  The repository holds two variants of the skiplist in \<^verbatim>\<open>zerocopyskiplist.go\<close>: the
  variant without tags (\<^verbatim>\<open>ItemPtr[T, K]\<close>, lines 1--576) and the context variant
  (\<^verbatim>\<open>ItemPtr[T, K, C]\<close>, lines 577--973). Both are embedded here. Names of the first
  variant are the source's; names of the context variant carry a final \<open>C\<close>.

  Pointers to nodes are addresses into an explicit store, \<open>None\<close> being \<^verbatim>\<open>nil\<close>. A
  pointer \<^verbatim>\<open>*T\<close> to a caller-owned record is a \<open>'t option\<close>: \<open>None\<close> is \<^verbatim>\<open>nil\<close> and
  \<open>Some r\<close> identifies the record \<open>r\<close>. A run-time panic is a value of type \<open>panic\<close>;
  a loop over the store that does not end is the value \<open>None\<close> of the outer option.
\<close>

type_synonym ref = nat

datatype panic = NilDereference | IndexOutOfRange | MakeLenOutOfRange
  | SliceBoundsOutOfRange | CallbackPanic

record ('t, 'k) ItemPtr =
  item :: "'t option"
  key :: 'k
  forward :: "ref option list"
  backward :: "ref option"

text \<open>The context variant's node adds \<^verbatim>\<open>context\<close> and \<^verbatim>\<open>level\<close> (here \<open>ctxt\<close>, \<open>nlevel\<close>).\<close>

record ('t, 'k, 'c) ItemPtrC = "('t, 'k) ItemPtr" +
  ctxt :: 'c
  nlevel :: int

text \<open>
  The fields the two index structs share, together with the store of the nodes the
  index owns (\<open>nodes\<close>) and the next unused address (\<open>nextRef\<close>). The source's
  \<^verbatim>\<open>length\<close> is \<open>lengthSL\<close>. Levels are never negative in the source (created 0,
  assigned a drawn level, decremented only while positive), so \<open>level\<close> is a natural
  number. The callbacks that receive a record pointer may panic.
\<close>

record ('t, 'k, 'n) ZeroCopySkiplist =
  header :: ref
  level :: nat
  maxLevel :: int
  lengthSL :: int
  getKeyFromItem :: "'t option \<Rightarrow> panic + 'k"
  getItemSize :: "'t option \<Rightarrow> panic + int"
  cmpKey :: "'k \<Rightarrow> 'k \<Rightarrow> int"
  nodes :: "ref \<Rightarrow> 'n"
  nextRef :: ref

text \<open>
  The variant without tags owns its random generator \<^verbatim>\<open>rnd\<close>: the list of the outcomes
  of the tests \<^verbatim>\<open>sl.rnd.Float64() < P\<close> still to come. An exhausted list reads as a
  failed test, so every level the source can draw is drawn by some list.
\<close>

record ('t, 'k) ZeroCopySkiplistR = "('t, 'k, ('t, 'k) ItemPtr) ZeroCopySkiplist" +
  rnd :: "bool list"

type_synonym ('t, 'k, 'c) ZeroCopySkiplistC =
  "('t, 'k, ('t, 'k, 'c) ItemPtrC) ZeroCopySkiplist"

type_synonym MergeStrategy = int

definition MergeTheirs :: MergeStrategy where "MergeTheirs = 0"
definition MergeOurs :: MergeStrategy where "MergeOurs = 1"
definition MergeError :: MergeStrategy where "MergeError = 2"

text \<open>The error values \<^verbatim>\<open>Merge\<close> returns, one constructor per message of the source.\<close>

datatype 'k merge_error =
    MaxLevelMismatch
  | InsertFailedOnConflict
  | InsertFailed
  | KeyConflict
  | InvalidStrategy
  | KeyConflictAt 'k

section \<open>Computations that may panic or diverge\<close>

definition ret :: "'a \<Rightarrow> (panic + 'a) option" where
  "ret x = Some (Inr x)"

definition bindE :: "'e + 'a \<Rightarrow> ('a \<Rightarrow> 'e + 'b) \<Rightarrow> 'e + 'b" where
  "bindE m f = (case m of Inl e \<Rightarrow> Inl e | Inr x \<Rightarrow> f x)"

definition bindR :: "('e + 'a) option \<Rightarrow> ('a \<Rightarrow> ('e + 'b) option) \<Rightarrow> ('e + 'b) option" where
  "bindR m f = (case m of None \<Rightarrow> None | Some (Inl e) \<Rightarrow> Some (Inl e) | Some (Inr x) \<Rightarrow> f x)"

text \<open>\<^verbatim>\<open>xs[i]\<close> on a slice, and \<^verbatim>\<open>n.forward[i]\<close> on a node.\<close>

definition idx :: "'a list \<Rightarrow> nat \<Rightarrow> panic + 'a" where
  "idx xs i = (if i < length xs then Inr (xs ! i) else Inl IndexOutOfRange)"

definition fwd :: "('t, 'k, 'z) ItemPtr_scheme \<Rightarrow> nat \<Rightarrow> panic + ref option" where
  "fwd n i = idx (forward n) i"

section \<open>Search\<close>

text \<open>
  The inner loop of the search,
  \<^verbatim>\<open>for current.forward[i] != nil && sl.cmpKey(current.forward[i].key, key) < 0\<close>.
\<close>

partial_function (option) advance ::
  "(ref \<Rightarrow> ('t, 'k, 'z) ItemPtr_scheme) \<Rightarrow> ('k \<Rightarrow> 'k \<Rightarrow> int) \<Rightarrow> 'k \<Rightarrow> nat \<Rightarrow> ref
     \<Rightarrow> (panic + ref) option" where
  "advance h cmp k i cur =
     (if i < length (forward (h cur)) then
        (case forward (h cur) ! i of
           None \<Rightarrow> Some (Inr cur)
         | Some nx \<Rightarrow>
             if cmp (key (h nx)) k < 0 then advance h cmp k i nx else Some (Inr cur))
      else Some (Inl IndexOutOfRange))"

text \<open>
  The outer loop \<^verbatim>\<open>for i := sl.level; i >= 0; i--\<close>, with \<^verbatim>\<open>update[i] = current\<close> at the
  end of each round. \<open>descend h cmp k n cur update\<close> runs the rounds \<open>i = n - 1, ..., 0\<close>.
\<close>

fun descend ::
  "(ref \<Rightarrow> ('t, 'k, 'z) ItemPtr_scheme) \<Rightarrow> ('k \<Rightarrow> 'k \<Rightarrow> int) \<Rightarrow> 'k \<Rightarrow> nat \<Rightarrow> ref
     \<Rightarrow> ref option list \<Rightarrow> (panic + ref option list \<times> ref) option" where
  "descend h cmp k 0 cur update = ret (update, cur)"
| "descend h cmp k (Suc i) cur update =
     bindR (advance h cmp k i cur) (\<lambda>c.
       if i < length update then descend h cmp k i c (update[i := Some c])
       else Some (Inl IndexOutOfRange))"

text \<open>
  The search as all of \<^verbatim>\<open>search\<close>, \<^verbatim>\<open>Insert\<close> and \<^verbatim>\<open>Delete\<close> run it: make the update
  array of \<open>n\<close> slots, descend from the header, then step to \<^verbatim>\<open>current.forward[0]\<close>.
\<close>

definition findPath ::
  "('t, 'k, ('t, 'k, 'z) ItemPtr_scheme, 'y) ZeroCopySkiplist_scheme \<Rightarrow> 'k \<Rightarrow> int
     \<Rightarrow> (panic + ref option list \<times> ref option) option" where
  "findPath sl k n =
     (if n < 0 then Some (Inl MakeLenOutOfRange)
      else bindR (descend (nodes sl) (cmpKey sl) k (Suc (level sl)) (header sl)
                    (replicate (nat n) None)) (\<lambda>(update, current).
             bindR (Some (fwd (nodes sl current) 0)) (\<lambda>nx. ret (update, nx))))"

definition search ::
  "('t, 'k) ZeroCopySkiplistR \<Rightarrow> 'k \<Rightarrow> (panic + ref option list \<times> ref option) option" where
  "search sl k = findPath sl k (maxLevel sl)"

text \<open>\<^verbatim>\<open>current != nil && sl.cmpKey(current.key, key) == 0\<close>\<close>

definition keyMatches ::
  "('t, 'k, ('t, 'k, 'z) ItemPtr_scheme, 'y) ZeroCopySkiplist_scheme \<Rightarrow> ref option \<Rightarrow> 'k \<Rightarrow> bool" where
  "keyMatches sl current k =
     (case current of None \<Rightarrow> False | Some c \<Rightarrow> cmpKey sl (key (nodes sl c)) k = 0)"

section \<open>Insertion\<close>

text \<open>
  The loop of \<^verbatim>\<open>randomLevel\<close>: \<^verbatim>\<open>for rnd() < p && level < bound { level++ }\<close>. The random
  test is evaluated first, so a round consumes one outcome whether or not the level
  bound stops the loop.
\<close>

fun drawLevel :: "int \<Rightarrow> bool list \<Rightarrow> nat \<Rightarrow> nat \<times> bool list" where
  "drawLevel b [] lv = (lv, [])"
| "drawLevel b (c # cs) lv = (if c \<and> int lv < b then drawLevel b cs (Suc lv) else (lv, cs))"

definition randomLevel :: "('t, 'k) ZeroCopySkiplistR \<Rightarrow> nat \<times> bool list" where
  "randomLevel sl = drawLevel (maxLevel sl - 1) (rnd sl) 0"

text \<open>\<^verbatim>\<open>for i := sl.level + 1; i <= newLevel; i++ { update[i] = sl.header }\<close>\<close>

fun raiseUpdate :: "ref option list \<Rightarrow> ref \<Rightarrow> nat \<Rightarrow> nat \<Rightarrow> panic + ref option list" where
  "raiseUpdate update hdr i 0 = Inr update"
| "raiseUpdate update hdr i (Suc n) =
     (if i < length update then raiseUpdate (update[i := Some hdr]) hdr (Suc i) n
      else Inl IndexOutOfRange)"

text \<open>
  \<^verbatim>\<open>for i := 0; i <= newLevel; i++ { newNode.forward[i] = update[i].forward[i];
  update[i].forward[i] = newNode }\<close>; \<open>linkForward h update r i n\<close> runs \<open>n\<close> rounds from
  \<open>i\<close> on the store \<open>h\<close>, \<open>r\<close> being the address of the new node.
\<close>

fun linkForward ::
  "(ref \<Rightarrow> ('t, 'k, 'z) ItemPtr_scheme) \<Rightarrow> ref option list \<Rightarrow> ref \<Rightarrow> nat \<Rightarrow> nat
     \<Rightarrow> panic + (ref \<Rightarrow> ('t, 'k, 'z) ItemPtr_scheme)" where
  "linkForward h update r i 0 = Inr h"
| "linkForward h update r i (Suc n) =
     bindE (idx update i) (\<lambda>p.
       case p of
         None \<Rightarrow> Inl NilDereference
       | Some u \<Rightarrow>
           bindE (fwd (h u) i) (\<lambda>v.
             if i < length (forward (h r)) then
               let h1 = h(r := (h r)\<lparr>forward := (forward (h r))[i := v]\<rparr>) in
               if i < length (forward (h1 u)) then
                 linkForward (h1(u := (h1 u)\<lparr>forward := (forward (h1 u))[i := Some r]\<rparr>))
                   update r (Suc i) n
               else Inl IndexOutOfRange
             else Inl IndexOutOfRange))"

text \<open>
  The tail of \<^verbatim>\<open>Insert\<close>, the same text in \<^verbatim>\<open>Insert\<close>, \<^verbatim>\<open>insertUnsafe\<close> and the context
  variant's \<^verbatim>\<open>Insert\<close>: raise the level, allocate the node, link the forward pointers,
  fix the backward pointers, count. \<open>newNode\<close> is the node as the struct literal of
  the caller builds it; it is stored at the unused address \<open>nextRef sl\<close>.
\<close>

definition insertNode ::
  "('t, 'k, ('t, 'k, 'z) ItemPtr_scheme, 'y) ZeroCopySkiplist_scheme \<Rightarrow> ref option list \<Rightarrow> nat
     \<Rightarrow> ('t, 'k, 'z) ItemPtr_scheme
     \<Rightarrow> panic + ('t, 'k, ('t, 'k, 'z) ItemPtr_scheme, 'y) ZeroCopySkiplist_scheme" where
  "insertNode sl update newLevel newNode =
     bindE (if newLevel > level sl
            then raiseUpdate update (header sl) (Suc (level sl)) (newLevel - level sl)
            else Inr update) (\<lambda>update'.
     let lvl = (if newLevel > level sl then newLevel else level sl);
         r = nextRef sl;
         h1 = (nodes sl)(r := newNode)
     in
     bindE (linkForward h1 update' r 0 (Suc newLevel)) (\<lambda>h2.
     bindE (fwd (h2 r) 0) (\<lambda>nx.
     let h3 = (case nx of None \<Rightarrow> h2 | Some s \<Rightarrow> h2(s := (h2 s)\<lparr>backward := Some r\<rparr>)) in
     bindE (idx update' 0) (\<lambda>u0.
     let h4 = (if u0 \<noteq> Some (header sl) then h3(r := (h3 r)\<lparr>backward := u0\<rparr>) else h3) in
     Inr (sl\<lparr>level := lvl, nodes := h4, nextRef := Suc r, lengthSL := lengthSL sl + 1\<rparr>)))))"

definition insertUnsafe ::
  "('t, 'k) ZeroCopySkiplistR \<Rightarrow> 't option \<Rightarrow> (panic + bool \<times> ('t, 'k) ZeroCopySkiplistR) option" where
  "insertUnsafe sl it =
     (if it = None then ret (False, sl)
      else
        bindR (Some (getKeyFromItem sl it)) (\<lambda>k.
        bindR (search sl k) (\<lambda>(update, current).
          if keyMatches sl current k then ret (False, sl)
          else
            let (newLevel, rnd') = randomLevel sl in
            bindR (Some (insertNode (sl\<lparr>rnd := rnd'\<rparr>) update newLevel
                     \<lparr>item = it, key = k, forward = replicate (Suc newLevel) None,
                      backward = None\<rparr>)) (\<lambda>sl'.
            ret (True, sl')))))"

text \<open>\<^verbatim>\<open>Insert\<close> is the text of \<^verbatim>\<open>insertUnsafe\<close> under the write lock.\<close>

definition Insert ::
  "('t, 'k) ZeroCopySkiplistR \<Rightarrow> 't option \<Rightarrow> (panic + bool \<times> ('t, 'k) ZeroCopySkiplistR) option" where
  "Insert sl it =
     (if it = None then ret (False, sl)
      else
        bindR (Some (getKeyFromItem sl it)) (\<lambda>k.
        bindR (search sl k) (\<lambda>(update, current).
          if keyMatches sl current k then ret (False, sl)
          else
            let (newLevel, rnd') = randomLevel sl in
            bindR (Some (insertNode (sl\<lparr>rnd := rnd'\<rparr>) update newLevel
                     \<lparr>item = it, key = k, forward = replicate (Suc newLevel) None,
                      backward = None\<rparr>)) (\<lambda>sl'.
            ret (True, sl')))))"

section \<open>Deletion\<close>

text \<open>
  \<^verbatim>\<open>for i := 0; i < n; i++ { update[i].forward[i] = current.forward[i] }\<close>, where \<open>n\<close> is
  \<^verbatim>\<open>len(current.forward)\<close> in the variant without tags and \<^verbatim>\<open>current.level + 1\<close> in the
  context variant.
\<close>

fun unlinkForward ::
  "(ref \<Rightarrow> ('t, 'k, 'z) ItemPtr_scheme) \<Rightarrow> ref option list \<Rightarrow> ref \<Rightarrow> nat \<Rightarrow> nat
     \<Rightarrow> panic + (ref \<Rightarrow> ('t, 'k, 'z) ItemPtr_scheme)" where
  "unlinkForward h update c i 0 = Inr h"
| "unlinkForward h update c i (Suc n) =
     bindE (idx update i) (\<lambda>p.
       case p of
         None \<Rightarrow> Inl NilDereference
       | Some u \<Rightarrow>
           bindE (fwd (h c) i) (\<lambda>v.
             if i < length (forward (h u)) then
               unlinkForward (h(u := (h u)\<lparr>forward := (forward (h u))[i := v]\<rparr>))
                 update c (Suc i) n
             else Inl IndexOutOfRange))"

text \<open>\<^verbatim>\<open>for sl.level > 0 && sl.header.forward[sl.level] == nil { sl.level-- }\<close>\<close>

fun reduceLevel ::
  "(ref \<Rightarrow> ('t, 'k, 'z) ItemPtr_scheme) \<Rightarrow> ref \<Rightarrow> nat \<Rightarrow> panic + nat" where
  "reduceLevel h hdr 0 = Inr 0"
| "reduceLevel h hdr (Suc l) =
     bindE (fwd (h hdr) (Suc l)) (\<lambda>p. if p = None then reduceLevel h hdr l else Inr (Suc l))"

text \<open>
  The tail of \<^verbatim>\<open>Delete\<close> once the node \<open>c\<close> is found, the same text in \<^verbatim>\<open>Delete\<close>,
  \<^verbatim>\<open>deleteUnsafe\<close> and the context variant's \<^verbatim>\<open>Delete\<close> up to the loop bound \<open>n\<close>.
\<close>

definition removeNode ::
  "('t, 'k, ('t, 'k, 'z) ItemPtr_scheme, 'y) ZeroCopySkiplist_scheme \<Rightarrow> ref option list \<Rightarrow> ref
     \<Rightarrow> nat \<Rightarrow> panic + ('t, 'k, ('t, 'k, 'z) ItemPtr_scheme, 'y) ZeroCopySkiplist_scheme" where
  "removeNode sl update c n =
     bindE (unlinkForward (nodes sl) update c 0 n) (\<lambda>h1.
     bindE (fwd (h1 c) 0) (\<lambda>nx.
     let h2 = (case nx of None \<Rightarrow> h1
               | Some s \<Rightarrow> h1(s := (h1 s)\<lparr>backward := backward (h1 c)\<rparr>)) in
     bindE (reduceLevel h2 (header sl) (level sl)) (\<lambda>lvl.
     Inr (sl\<lparr>level := lvl, nodes := h2, lengthSL := lengthSL sl - 1\<rparr>))))"

definition deleteUnsafe ::
  "('t, 'k) ZeroCopySkiplistR \<Rightarrow> 'k \<Rightarrow> (panic + bool \<times> ('t, 'k) ZeroCopySkiplistR) option" where
  "deleteUnsafe sl k =
     bindR (search sl k) (\<lambda>(update, current).
       case current of
         None \<Rightarrow> ret (False, sl)
       | Some c \<Rightarrow>
           if cmpKey sl (key (nodes sl c)) k \<noteq> 0 then ret (False, sl)
           else bindR (Some (removeNode sl update c (length (forward (nodes sl c)))))
                  (\<lambda>sl'. ret (True, sl')))"

definition Delete ::
  "('t, 'k) ZeroCopySkiplistR \<Rightarrow> 'k \<Rightarrow> (panic + bool \<times> ('t, 'k) ZeroCopySkiplistR) option" where
  "Delete sl k =
     bindR (search sl k) (\<lambda>(update, current).
       case current of
         None \<Rightarrow> ret (False, sl)
       | Some c \<Rightarrow>
           if cmpKey sl (key (nodes sl c)) k \<noteq> 0 then ret (False, sl)
           else bindR (Some (removeNode sl update c (length (forward (nodes sl c)))))
                  (\<lambda>sl'. ret (True, sl')))"

section \<open>Construction, navigation and merge (variant without tags)\<close>

text \<open>
  \<^verbatim>\<open>MakeZeroCopySkiplist\<close>. \<open>zk\<close> is Go's zero value of the key type, which the header
  holds; \<open>seed\<close> is the stream the new generator will produce. The header is stored at
  address 0; every other cell of the store is unused.
\<close>

definition MakeZeroCopySkiplist ::
  "'k \<Rightarrow> bool list \<Rightarrow> int \<Rightarrow> ('t option \<Rightarrow> panic + 'k) \<Rightarrow> ('t option \<Rightarrow> panic + int)
     \<Rightarrow> ('k \<Rightarrow> 'k \<Rightarrow> int) \<Rightarrow> ('t, 'k) ZeroCopySkiplistR" where
  "MakeZeroCopySkiplist zk seed maxLevel0 gk gs cmp =
     (let maxLevel1 = (if maxLevel0 \<le> 0 then 16 else maxLevel0) in
      \<lparr>header = 0, level = 0, maxLevel = maxLevel1, lengthSL = 0,
       getKeyFromItem = gk, getItemSize = gs, cmpKey = cmp,
       nodes = (\<lambda>_. \<lparr>item = None, key = zk, forward = [], backward = None\<rparr>)
                 (0 := \<lparr>item = None, key = zk, forward = replicate (nat maxLevel1) None,
                        backward = None\<rparr>),
       nextRef = 1, rnd = seed\<rparr>)"

definition First ::
  "('t, 'k, ('t, 'k, 'z) ItemPtr_scheme, 'y) ZeroCopySkiplist_scheme \<Rightarrow> panic + ref option" where
  "First sl = fwd (nodes sl (header sl)) 0"

text \<open>\<^verbatim>\<open>Next\<close> and \<^verbatim>\<open>Prev\<close> of the variant without tags test the receiver for \<^verbatim>\<open>nil\<close>.\<close>

definition Next :: "(ref \<Rightarrow> ('t, 'k) ItemPtr) \<Rightarrow> ref option \<Rightarrow> panic + ref option" where
  "Next h ip = (case ip of None \<Rightarrow> Inr None | Some a \<Rightarrow> fwd (h a) 0)"

definition Prev :: "(ref \<Rightarrow> ('t, 'k) ItemPtr) \<Rightarrow> ref option \<Rightarrow> panic + ref option" where
  "Prev h ip = (case ip of None \<Rightarrow> Inr None | Some a \<Rightarrow> Inr (backward (h a)))"

lemma bindR_mono [partial_function_mono]:
  assumes "\<And>y. mono_option (\<lambda>f. B f y)"
  shows "mono_option (\<lambda>f. bindR m (\<lambda>y. B f y))"
  using assms unfolding bindR_def
  by (cases m) (auto simp: fun_ord_def flat_ord_def monotone_def split: sum.splits)

text \<open>
  The loop of \<^verbatim>\<open>Merge\<close> over the level-0 chain of \<open>other\<close>, from the node pointer \<open>cur\<close>.
  The result is the returned error (\<open>None\<close> for \<^verbatim>\<open>nil\<close>) and the destination as the
  call leaves it. The destination and \<open>other\<close> are two indexes: the source takes the
  write lock of the first and the read lock of the second.
\<close>

partial_function (option) mergeLoop ::
  "('t, 'k) ZeroCopySkiplistR \<Rightarrow> MergeStrategy \<Rightarrow> ref option \<Rightarrow> ('t, 'k) ZeroCopySkiplistR
     \<Rightarrow> (panic + 'k merge_error option \<times> ('t, 'k) ZeroCopySkiplistR) option" where
  "mergeLoop other strategy cur sl =
     (case cur of
        None \<Rightarrow> ret (None, sl)
      | Some c \<Rightarrow>
          bindR (search sl (key (nodes other c))) (\<lambda>(update, existing).
            if keyMatches sl existing (key (nodes other c)) then
              (if strategy = MergeTheirs then
                 bindR (deleteUnsafe sl (key (nodes other c))) (\<lambda>(deleted, sl1).
                 bindR (insertUnsafe sl1 (item (nodes other c))) (\<lambda>(ok, sl2).
                   if \<not> ok then ret (Some InsertFailedOnConflict, sl2)
                   else bindR (Some (fwd (nodes other c) 0)) (\<lambda>nx.
                          mergeLoop other strategy nx sl2)))
               else if strategy = MergeOurs then
                 bindR (Some (fwd (nodes other c) 0)) (\<lambda>nx. mergeLoop other strategy nx sl)
               else if strategy = MergeError then ret (Some KeyConflict, sl)
               else ret (Some InvalidStrategy, sl))
            else
              bindR (insertUnsafe sl (item (nodes other c))) (\<lambda>(ok, sl1).
                if \<not> ok then ret (Some InsertFailed, sl1)
                else bindR (Some (fwd (nodes other c) 0)) (\<lambda>nx.
                       mergeLoop other strategy nx sl1))))"

definition Merge ::
  "('t, 'k) ZeroCopySkiplistR \<Rightarrow> ('t, 'k) ZeroCopySkiplistR option \<Rightarrow> MergeStrategy
     \<Rightarrow> (panic + 'k merge_error option \<times> ('t, 'k) ZeroCopySkiplistR) option" where
  "Merge sl other strategy =
     (case other of
        None \<Rightarrow> ret (None, sl)
      | Some ot \<Rightarrow>
          if maxLevel sl \<noteq> maxLevel ot then ret (Some MaxLevelMismatch, sl)
          else bindR (Some (fwd (nodes ot (header ot)) 0)) (\<lambda>first.
                 mergeLoop ot strategy first sl))"

section \<open>Bulk export (variant without tags)\<close>

text \<open>
  \<^verbatim>\<open>ToPwritevSlice\<close>: the loop from the node pointer \<open>cur\<close> with the buffers collected
  so far. A buffer is the byte slice the serializer returns.
\<close>

partial_function (option) pwritevLoop ::
  "(ref \<Rightarrow> ('t, 'k) ItemPtr) \<Rightarrow> ('t option \<Rightarrow> panic + 'b list) \<Rightarrow> ref option \<Rightarrow> 'b list list
     \<Rightarrow> (panic + 'b list list) option" where
  "pwritevLoop h getItemBytes cur buffers =
     (case cur of
        None \<Rightarrow> ret buffers
      | Some c \<Rightarrow>
          bindR (Some (getItemBytes (item (h c)))) (\<lambda>data.
          bindR (Some (fwd (h c) 0)) (\<lambda>nx.
            pwritevLoop h getItemBytes nx
              (if length data > 0 then buffers @ [data] else buffers))))"

definition ToPwritevSlice ::
  "('t, 'k) ZeroCopySkiplistR \<Rightarrow> ('t option \<Rightarrow> panic + 'b list) \<Rightarrow> (panic + 'b list list) option" where
  "ToPwritevSlice sl getItemBytes =
     (if lengthSL sl < 0 then Some (Inl MakeLenOutOfRange)
      else bindR (Some (fwd (nodes sl (header sl)) 0)) (\<lambda>first.
             pwritevLoop (nodes sl) getItemBytes first []))"

text \<open>
  \<^verbatim>\<open>ToPwritevSliceRaw\<close>: a buffer is the span of \<open>size\<close> bytes at the record, here the
  record pointer and the length. Slicing the \<^verbatim>\<open>[1 << 30]byte\<close> array panics beyond its
  bound, and on a \<^verbatim>\<open>nil\<close> record.
\<close>

partial_function (option) pwritevRawLoop ::
  "(ref \<Rightarrow> ('t, 'k) ItemPtr) \<Rightarrow> ('t option \<Rightarrow> panic + int) \<Rightarrow> ref option
     \<Rightarrow> ('t \<times> int) list \<Rightarrow> (panic + ('t \<times> int) list) option" where
  "pwritevRawLoop h getSize cur buffers =
     (case cur of
        None \<Rightarrow> ret buffers
      | Some c \<Rightarrow>
          bindR (Some (getSize (item (h c)))) (\<lambda>size.
            if size > 0 then
              (case item (h c) of
                 None \<Rightarrow> Some (Inl NilDereference)
               | Some r \<Rightarrow>
                   if size > 2 ^ 30 then Some (Inl SliceBoundsOutOfRange)
                   else bindR (Some (fwd (h c) 0)) (\<lambda>nx.
                          pwritevRawLoop h getSize nx (buffers @ [(r, size)])))
            else bindR (Some (fwd (h c) 0)) (\<lambda>nx. pwritevRawLoop h getSize nx buffers)))"

definition ToPwritevSliceRaw ::
  "('t, 'k) ZeroCopySkiplistR \<Rightarrow> (panic + ('t \<times> int) list) option" where
  "ToPwritevSliceRaw sl =
     (if lengthSL sl < 0 then Some (Inl MakeLenOutOfRange)
      else bindR (Some (fwd (nodes sl (header sl)) 0)) (\<lambda>first.
             pwritevRawLoop (nodes sl) (getItemSize sl) first []))"

section \<open>The context variant\<close>

text \<open>
  \<^verbatim>\<open>MakeZeroCopySkiplist\<close> of the context variant does not adjust \<^verbatim>\<open>maxLevel\<close>; the
  header gets \<^verbatim>\<open>maxLevel + 1\<close> forward slots, and \<^verbatim>\<open>make\<close> panics on a negative
  length. \<open>zk\<close> and \<open>zc\<close> are Go's zero values of the key and context types.
\<close>

definition MakeZeroCopySkiplistC ::
  "'k \<Rightarrow> 'c \<Rightarrow> int \<Rightarrow> ('t option \<Rightarrow> panic + 'k) \<Rightarrow> ('t option \<Rightarrow> panic + int)
     \<Rightarrow> ('k \<Rightarrow> 'k \<Rightarrow> int) \<Rightarrow> panic + ('t, 'k, 'c) ZeroCopySkiplistC" where
  "MakeZeroCopySkiplistC zk zc maxLevel0 gk gs cmp =
     (if maxLevel0 + 1 < 0 then Inl MakeLenOutOfRange
      else Inr
        \<lparr>header = 0, level = 0, maxLevel = maxLevel0, lengthSL = 0,
         getKeyFromItem = gk, getItemSize = gs, cmpKey = cmp,
         nodes = (\<lambda>_. \<lparr>item = None, key = zk, forward = [], backward = None,
                          ctxt = zc, nlevel = 0\<rparr>)
                   (0 := \<lparr>item = None, key = zk,
                          forward = replicate (nat (maxLevel0 + 1)) None, backward = None,
                          ctxt = zc, nlevel = maxLevel0\<rparr>),
         nextRef = 1\<rparr>)"

text \<open>
  \<^verbatim>\<open>randomLevel\<close> of the context variant draws from the global generator: \<open>coins\<close> are
  the outcomes of the tests \<^verbatim>\<open>rand.Float32() < 0.5\<close> still to come, and the rest is
  returned.
\<close>

definition randomLevelC :: "('t, 'k, 'c) ZeroCopySkiplistC \<Rightarrow> bool list \<Rightarrow> nat \<times> bool list" where
  "randomLevelC sl coins = drawLevel (maxLevel sl) coins 0"

text \<open>
  \<^verbatim>\<open>Insert(item, context)\<close>. There is no test of \<^verbatim>\<open>item\<close> for \<^verbatim>\<open>nil\<close>: the key extractor
  is called first. An existing key has its node's record and context replaced.
\<close>

definition InsertC ::
  "('t, 'k, 'c) ZeroCopySkiplistC \<Rightarrow> 't option \<Rightarrow> 'c \<Rightarrow> bool list
     \<Rightarrow> (panic + bool \<times> ('t, 'k, 'c) ZeroCopySkiplistC \<times> bool list) option" where
  "InsertC sl it context coins =
     bindR (Some (getKeyFromItem sl it)) (\<lambda>k.
     bindR (findPath sl k (maxLevel sl + 1)) (\<lambda>(update, current).
       case (if keyMatches sl current k then current else None) of
         Some c \<Rightarrow>
           ret (False,
                sl\<lparr>nodes := (nodes sl)(c := (nodes sl c)\<lparr>item := it, ctxt := context\<rparr>)\<rparr>,
                coins)
       | None \<Rightarrow>
           let (newLevel, coins') = randomLevelC sl coins in
           bindR (Some (insertNode sl update newLevel
                    \<lparr>item = it, key = k, forward = replicate (Suc newLevel) None,
                     backward = None, ctxt = context, nlevel = int newLevel\<rparr>)) (\<lambda>sl'.
           ret (True, sl', coins'))))"

definition DeleteC ::
  "('t, 'k, 'c) ZeroCopySkiplistC \<Rightarrow> 'k
     \<Rightarrow> (panic + bool \<times> ('t, 'k, 'c) ZeroCopySkiplistC) option" where
  "DeleteC sl k =
     bindR (findPath sl k (maxLevel sl + 1)) (\<lambda>(update, current).
       case current of
         None \<Rightarrow> ret (False, sl)
       | Some c \<Rightarrow>
           if cmpKey sl (key (nodes sl c)) k \<noteq> 0 then ret (False, sl)
           else bindR (Some (removeNode sl update c (nat (nlevel (nodes sl c) + 1))))
                  (\<lambda>sl'. ret (True, sl')))"

text \<open>\<^verbatim>\<open>Next\<close> and \<^verbatim>\<open>Prev\<close> of the context variant dereference the receiver at once.\<close>

definition NextC :: "(ref \<Rightarrow> ('t, 'k, 'c) ItemPtrC) \<Rightarrow> ref option \<Rightarrow> panic + ref option" where
  "NextC h ip = (case ip of None \<Rightarrow> Inl NilDereference | Some a \<Rightarrow> fwd (h a) 0)"

definition PrevC :: "(ref \<Rightarrow> ('t, 'k, 'c) ItemPtrC) \<Rightarrow> ref option \<Rightarrow> panic + ref option" where
  "PrevC h ip = (case ip of None \<Rightarrow> Inl NilDereference | Some a \<Rightarrow> Inr (backward (h a)))"

text \<open>
  \<^verbatim>\<open>search\<close> of the context variant: the descent without an update array, then the
  comparison; \<open>zc\<close> is the zero context returned with \<^verbatim>\<open>nil\<close>.
\<close>

fun seek ::
  "(ref \<Rightarrow> ('t, 'k, 'z) ItemPtr_scheme) \<Rightarrow> ('k \<Rightarrow> 'k \<Rightarrow> int) \<Rightarrow> 'k \<Rightarrow> nat \<Rightarrow> ref
     \<Rightarrow> (panic + ref) option" where
  "seek h cmp k 0 cur = ret cur"
| "seek h cmp k (Suc i) cur = bindR (advance h cmp k i cur) (\<lambda>c. seek h cmp k i c)"

definition searchC ::
  "'c \<Rightarrow> ('t, 'k, 'c) ZeroCopySkiplistC \<Rightarrow> 'k \<Rightarrow> (panic + ref option \<times> 'c) option" where
  "searchC zc sl k =
     bindR (seek (nodes sl) (cmpKey sl) k (Suc (level sl)) (header sl)) (\<lambda>cur.
     bindR (Some (fwd (nodes sl cur) 0)) (\<lambda>current.
       case (if keyMatches sl current k then current else None) of
         Some c \<Rightarrow> ret (Some c, ctxt (nodes sl c))
       | None \<Rightarrow> ret (None, zc)))"

text \<open>
  \<^verbatim>\<open>Merge\<close> of the context variant: no comparison of the height limits, and a
  \<^verbatim>\<open>switch\<close> with the three cases and no \<^verbatim>\<open>default\<close>, so any other strategy value falls
  through to \<^verbatim>\<open>current = current.Next()\<close>.
\<close>

partial_function (option) mergeLoopC ::
  "'c \<Rightarrow> ('t, 'k, 'c) ZeroCopySkiplistC \<Rightarrow> MergeStrategy \<Rightarrow> ref option
     \<Rightarrow> ('t, 'k, 'c) ZeroCopySkiplistC \<Rightarrow> bool list
     \<Rightarrow> (panic + 'k merge_error option \<times> ('t, 'k, 'c) ZeroCopySkiplistC \<times> bool list) option" where
  "mergeLoopC zc other strategy cur sl coins =
     (case cur of
        None \<Rightarrow> ret (None, sl, coins)
      | Some c \<Rightarrow>
          bindR (searchC zc sl (key (nodes other c))) (\<lambda>(existing, ectx).
            if existing \<noteq> None then
              (if strategy = MergeTheirs then
                 bindR (InsertC sl (item (nodes other c)) (ctxt (nodes other c)) coins)
                   (\<lambda>(ok, sl1, coins1).
                 bindR (Some (NextC (nodes other) (Some c))) (\<lambda>nx.
                   mergeLoopC zc other strategy nx sl1 coins1))
               else if strategy = MergeOurs then
                 bindR (Some (NextC (nodes other) (Some c))) (\<lambda>nx.
                   mergeLoopC zc other strategy nx sl coins)
               else if strategy = MergeError then
                 ret (Some (KeyConflictAt (key (nodes other c))), sl, coins)
               else
                 bindR (Some (NextC (nodes other) (Some c))) (\<lambda>nx.
                   mergeLoopC zc other strategy nx sl coins))
            else
              bindR (InsertC sl (item (nodes other c)) (ctxt (nodes other c)) coins)
                (\<lambda>(ok, sl1, coins1).
              bindR (Some (NextC (nodes other) (Some c))) (\<lambda>nx.
                mergeLoopC zc other strategy nx sl1 coins1))))"

definition MergeC ::
  "'c \<Rightarrow> ('t, 'k, 'c) ZeroCopySkiplistC \<Rightarrow> ('t, 'k, 'c) ZeroCopySkiplistC option
     \<Rightarrow> MergeStrategy \<Rightarrow> bool list
     \<Rightarrow> (panic + 'k merge_error option \<times> ('t, 'k, 'c) ZeroCopySkiplistC \<times> bool list) option" where
  "MergeC zc sl other strategy coins =
     (case other of
        None \<Rightarrow> Some (Inl NilDereference)
      | Some ot \<Rightarrow>
          bindR (Some (First ot)) (\<lambda>first. mergeLoopC zc ot strategy first sl coins))"

text \<open>
  \<^verbatim>\<open>CallbackToIovecSlice\<close>. An \<^verbatim>\<open>Iovec\<close> is the record pointer \<^verbatim>\<open>Base\<close> and the length
  \<^verbatim>\<open>Len\<close>, the size converted to \<^verbatim>\<open>uint64\<close>. The callback reads a node. The successor is
  read before the callback runs.
\<close>

record 't Iovec =
  Base :: "'t option"
  Len :: "64 word"

partial_function (option) callbackLoop ::
  "(ref \<Rightarrow> ('t, 'k, 'c) ItemPtrC) \<Rightarrow> ('t option \<Rightarrow> panic + int)
     \<Rightarrow> (('t, 'k, 'c) ItemPtrC \<Rightarrow> bool) \<Rightarrow> ref option \<Rightarrow> 't Iovec list
     \<Rightarrow> (panic + 't Iovec list) option" where
  "callbackLoop h getSize callback cur iovecs =
     (case cur of
        None \<Rightarrow> ret iovecs
      | Some c \<Rightarrow>
          bindR (Some (NextC h (Some c))) (\<lambda>tmp.
            if callback (h c) then
              bindR (Some (getSize (item (h c)))) (\<lambda>size.
                callbackLoop h getSize callback tmp
                  (iovecs @ [\<lparr>Base = item (h c), Len = word_of_int size\<rparr>]))
            else callbackLoop h getSize callback tmp iovecs))"

text \<open>
  \<^verbatim>\<open>make([]syscall.Iovec, 0, sl.length/2)\<close> panics on a negative capacity; Go's division
  truncates towards zero, so that is a length of -2 or less.
\<close>

definition CallbackToIovecSlice ::
  "('t, 'k, 'c) ZeroCopySkiplistC \<Rightarrow> (('t, 'k, 'c) ItemPtrC \<Rightarrow> bool)
     \<Rightarrow> (panic + 't Iovec list) option" where
  "CallbackToIovecSlice sl callback =
     (if lengthSL sl \<le> - 2 then Some (Inl MakeLenOutOfRange)
      else bindR (Some (First sl)) (\<lambda>first.
             callbackLoop (nodes sl) (getItemSize sl) callback first []))"

definition ToIovecSlice ::
  "('t, 'k, 'c) ZeroCopySkiplistC \<Rightarrow> 'c \<Rightarrow> (panic + 't Iovec list) option" where
  "ToIovecSlice sl context = CallbackToIovecSlice sl (\<lambda>item. True)"

definition ToContextIovecSlice ::
  "('t, 'k, 'c) ZeroCopySkiplistC \<Rightarrow> 'c \<Rightarrow> (panic + 't Iovec list) option" where
  "ToContextIovecSlice sl context = CallbackToIovecSlice sl (\<lambda>item. ctxt item = context)"

definition ToNotContextIovecSlice ::
  "('t, 'k, 'c) ZeroCopySkiplistC \<Rightarrow> 'c \<Rightarrow> (panic + 't Iovec list) option" where
  "ToNotContextIovecSlice sl context = CallbackToIovecSlice sl (\<lambda>item. ctxt item \<noteq> context)"

definition three_way :: "('k \<Rightarrow> 'k \<Rightarrow> int) \<Rightarrow> bool" where
  "three_way cmp =
     ((\<forall>a b. (cmp a b < 0) = (0 < cmp b a)) \<and>
      (\<forall>a b c. cmp a b \<le> 0 \<and> cmp b c \<le> 0 \<longrightarrow> cmp a c \<le> 0))"

definition lvl :: "(ref \<Rightarrow> ('t, 'k, 'z) ItemPtr_scheme) \<Rightarrow> nat \<Rightarrow> ref list \<Rightarrow> ref list" where
  "lvl h i ns = filter (\<lambda>a. i < length (forward (h a))) ns"

fun lseg :: "(ref \<Rightarrow> ('t, 'k, 'z) ItemPtr_scheme) \<Rightarrow> nat \<Rightarrow> ref \<Rightarrow> ref list \<Rightarrow> ref option \<Rightarrow> bool" where
  "lseg h i a [] q = (i < length (forward (h a)) \<and> forward (h a) ! i = q)"
| "lseg h i a (b # bs) q =
     (i < length (forward (h a)) \<and> forward (h a) ! i = Some b \<and> lseg h i b bs q)"

fun backs :: "(ref \<Rightarrow> ('t, 'k, 'z) ItemPtr_scheme) \<Rightarrow> ref option \<Rightarrow> ref list \<Rightarrow> bool" where
  "backs h p [] = True"
| "backs h p (a # as) = (backward (h a) = p \<and> backs h (Some a) as)"

definition pred :: "(ref \<Rightarrow> ('t, 'k, 'z) ItemPtr_scheme) \<Rightarrow> ref \<Rightarrow> nat \<Rightarrow> ref list \<Rightarrow> ref" where
  "pred h hdr i pre = last (hdr # lvl h i pre)"

definition nxt :: "ref list \<Rightarrow> ref option" where
  "nxt post = (case post of [] \<Rightarrow> None | b # bs \<Rightarrow> Some b)"

definition valid ::
  "('t, 'k, ('t, 'k, 'z) ItemPtr_scheme, 'y) ZeroCopySkiplist_scheme \<Rightarrow> ref list \<Rightarrow> bool" where
  "valid sl ns =
     (distinct ns \<and> header sl \<notin> set ns \<and> header sl < nextRef sl \<and>
      (\<forall>a\<in>set ns. a < nextRef sl) \<and>
      level sl < length (forward (nodes sl (header sl))) \<and>
      (\<forall>a\<in>set ns. 0 < length (forward (nodes sl a)) \<and>
                    length (forward (nodes sl a)) \<le> Suc (level sl)) \<and>
      (\<forall>i < length (forward (nodes sl (header sl))).
          lseg (nodes sl) i (header sl) (lvl (nodes sl) i ns) None) \<and>
      sorted_wrt (\<lambda>a b. cmpKey sl (key (nodes sl a)) (key (nodes sl b)) < 0) ns \<and>
      backs (nodes sl) None ns \<and>
      lengthSL sl = int (length ns))"

definition pathUpdate ::
  "('t, 'k, ('t, 'k, 'z) ItemPtr_scheme, 'y) ZeroCopySkiplist_scheme \<Rightarrow> ref list \<Rightarrow> ref option list" where
  "pathUpdate sl pre =
     map (\<lambda>j. if j \<le> level sl then Some (pred (nodes sl) (header sl) j pre) else None)
       [0..<length (forward (nodes sl (header sl)))]"

definition before ::
  "('t, 'k, ('t, 'k, 'z) ItemPtr_scheme, 'y) ZeroCopySkiplist_scheme \<Rightarrow> ref list \<Rightarrow> 'k \<Rightarrow> ref list" where
  "before sl ns k = takeWhile (\<lambda>a. cmpKey sl (key (nodes sl a)) k < 0) ns"

definition after ::
  "('t, 'k, ('t, 'k, 'z) ItemPtr_scheme, 'y) ZeroCopySkiplist_scheme \<Rightarrow> ref list \<Rightarrow> 'k \<Rightarrow> ref list" where
  "after sl ns k = dropWhile (\<lambda>a. cmpKey sl (key (nodes sl a)) k < 0) ns"

definition hasKey ::
  "('t, 'k, ('t, 'k, 'z) ItemPtr_scheme, 'y) ZeroCopySkiplist_scheme \<Rightarrow> ref list \<Rightarrow> 'k \<Rightarrow> bool" where
  "hasKey sl ns k = (\<exists>a\<in>set ns. cmpKey sl (key (nodes sl a)) k = 0)"

definition validR :: "('t, 'k) ZeroCopySkiplistR \<Rightarrow> ref list \<Rightarrow> bool" where
  "validR sl ns =
     (valid sl ns \<and> 0 < maxLevel sl \<and>
      length (forward (nodes sl (header sl))) = nat (maxLevel sl))"

definition sameConfig ::
  "('t, 'k, 'n, 'y) ZeroCopySkiplist_scheme \<Rightarrow> ('t, 'k, 'n, 'y) ZeroCopySkiplist_scheme \<Rightarrow> bool" where
  "sameConfig sl sl' =
     (header sl' = header sl \<and> maxLevel sl' = maxLevel sl \<and>
      getKeyFromItem sl' = getKeyFromItem sl \<and> getItemSize sl' = getItemSize sl \<and>
      cmpKey sl' = cmpKey sl)"

definition validC :: "('t, 'k, 'c) ZeroCopySkiplistC \<Rightarrow> ref list \<Rightarrow> bool" where
  "validC sl ns =
     (valid sl ns \<and> 0 \<le> maxLevel sl \<and>
      length (forward (nodes sl (header sl))) = nat (maxLevel sl + 1) \<and>
      (\<forall>a\<in>set ns. nlevel (nodes sl a) = int (length (forward (nodes sl a))) - 1))"

text \<open>
  The traversal of the level-0 chain as the source writes it,
  \<^verbatim>\<open>for current := sl.header.forward[0]; current != nil; current = current.forward[0]\<close>,
  collecting the nodes it visits.
\<close>

partial_function (option) collect ::
  "(ref \<Rightarrow> ('t, 'k, 'z) ItemPtr_scheme) \<Rightarrow> ref option \<Rightarrow> ref list \<Rightarrow> (panic + ref list) option" where
  "collect h cur acc =
     (case cur of
        None \<Rightarrow> ret acc
      | Some c \<Rightarrow> bindR (Some (fwd (h c) 0)) (\<lambda>nx. collect h nx (acc @ [c])))"

definition level0 ::
  "('t, 'k, ('t, 'k, 'z) ItemPtr_scheme, 'y) ZeroCopySkiplist_scheme \<Rightarrow> (panic + ref list) option" where
  "level0 sl = bindR (Some (First sl)) (\<lambda>first. collect (nodes sl) first [])"

datatype ('t, 'k) mutation = DoInsert "'t option" | DoDelete 'k

fun run ::
  "('t, 'k) mutation list \<Rightarrow> ('t, 'k) ZeroCopySkiplistR
     \<Rightarrow> (panic + ('t, 'k) ZeroCopySkiplistR) option" where
  "run [] sl = ret sl"
| "run (DoInsert it # ms) sl = bindR (Insert sl it) (\<lambda>(ok, sl'). run ms sl')"
| "run (DoDelete k # ms) sl = bindR (Delete sl k) (\<lambda>(ok, sl'). run ms sl')"

datatype ('t, 'k, 'c) mutationC = DoInsertC "'t option" 'c "bool list" | DoDeleteC 'k

fun runC ::
  "('t, 'k, 'c) mutationC list \<Rightarrow> ('t, 'k, 'c) ZeroCopySkiplistC
     \<Rightarrow> (panic + ('t, 'k, 'c) ZeroCopySkiplistC) option" where
  "runC [] sl = ret sl"
| "runC (DoInsertC it cx coins # ms) sl =
     bindR (InsertC sl it cx coins) (\<lambda>(ok, sl', coins'). runC ms sl')"
| "runC (DoDeleteC k # ms) sl = bindR (DeleteC sl k) (\<lambda>(ok, sl'). runC ms sl')"

definition compareInt :: "int \<Rightarrow> int \<Rightarrow> int" where
  "compareInt a b = (if a < b then - 1 else if a > b then 1 else 0)"

definition testKey :: "(int \<times> nat) option \<Rightarrow> panic + int" where
  "testKey it = (case it of None \<Rightarrow> Inl NilDereference | Some r \<Rightarrow> Inr (fst r))"

definition testSize :: "(int \<times> nat) option \<Rightarrow> panic + int" where
  "testSize it = (case it of None \<Rightarrow> Inl NilDereference | Some r \<Rightarrow> Inr (int (snd r)))"

definition strictlyOrdered ::
  "('t, 'k, ('t, 'k, 'z) ItemPtr_scheme, 'y) ZeroCopySkiplist_scheme \<Rightarrow> bool" where
  "strictlyOrdered sl =
     (\<exists>ns. level0 sl = Some (Inr ns) \<and>
        sorted_wrt (\<lambda>a b. cmpKey sl (key (nodes sl a)) (key (nodes sl b)) < 0) ns \<and>
        (\<forall>a\<in>set ns. \<forall>b\<in>set ns. a \<noteq> b \<longrightarrow>
            cmpKey sl (key (nodes sl a)) (key (nodes sl b)) \<noteq> 0 \<and>
            key (nodes sl a) \<noteq> key (nodes sl b)))"

definition doublyLinked :: "('t, 'k) ZeroCopySkiplistR \<Rightarrow> bool" where
  "doublyLinked sl =
     (\<exists>ns. level0 sl = Some (Inr ns) \<and>
        (\<forall>j. Suc j < length ns \<longrightarrow>
            Next (nodes sl) (Some (ns ! j)) = Inr (Some (ns ! Suc j)) \<and>
            Prev (nodes sl) (Some (ns ! Suc j)) = Inr (Some (ns ! j))) \<and>
        (ns \<noteq> [] \<longrightarrow> Prev (nodes sl) (Some (hd ns)) = Inr None \<and>
                    Next (nodes sl) (Some (last ns)) = Inr None))"

definition doublyLinkedC :: "('t, 'k, 'c) ZeroCopySkiplistC \<Rightarrow> bool" where
  "doublyLinkedC sl =
     (\<exists>ns. level0 sl = Some (Inr ns) \<and>
        (\<forall>j. Suc j < length ns \<longrightarrow>
            NextC (nodes sl) (Some (ns ! j)) = Inr (Some (ns ! Suc j)) \<and>
            PrevC (nodes sl) (Some (ns ! Suc j)) = Inr (Some (ns ! j))) \<and>
        (ns \<noteq> [] \<longrightarrow> PrevC (nodes sl) (Some (hd ns)) = Inr None \<and>
                    NextC (nodes sl) (Some (last ns)) = Inr None))"

definition freshTest :: "(int \<times> nat, int) ZeroCopySkiplistR" where
  "freshTest = MakeZeroCopySkiplist 0 [] 4 testKey testSize compareInt"

definition oneRecord :: "(int \<times> nat, int) ZeroCopySkiplistR" where
  "oneRecord =
     (case Insert freshTest (Some (5, 1)) of
        Some (Inr (ok, sl)) \<Rightarrow> sl
      | _ \<Rightarrow> freshTest)"

definition freshTestC :: "(int \<times> nat, int, nat) ZeroCopySkiplistC" where
  "freshTestC =
     \<lparr>header = 0, level = 0, maxLevel = 2, lengthSL = 0,
      getKeyFromItem = testKey, getItemSize = testSize, cmpKey = compareInt,
      nodes = (\<lambda>_. \<lparr>item = None, key = 0, forward = [], backward = None,
                       ctxt = 0, nlevel = 0\<rparr>)
                (0 := \<lparr>item = None, key = 0, forward = [None, None, None], backward = None,
                       ctxt = 0, nlevel = 2\<rparr>),
      nextRef = 1\<rparr>"

definition oneRecordC :: "(int \<times> nat, int, nat) ZeroCopySkiplistC" where
  "oneRecordC =
     (case InsertC freshTestC (Some (5, 1)) 7 [] of
        Some (Inr (ok, sl, coins)) \<Rightarrow> sl
      | _ \<Rightarrow> freshTestC)"

lemma lseg_append:
  "lseg h i a (xs @ y # ys) q = (lseg h i a xs (Some y) \<and> lseg h i y ys q)"
  by (induction xs arbitrary: a) auto

lemma lseg_last:
  "lseg h i a xs q \<Longrightarrow> i < length (forward (h (last (a # xs)))) \<and> forward (h (last (a # xs))) ! i = q"
  by (induction xs arbitrary: a) auto

lemma lseg_frame:
  "\<forall>b\<in>set (a # xs). length (forward (h' b)) = length (forward (h b)) \<and>
       forward (h' b) ! i = forward (h b) ! i
   \<Longrightarrow> lseg h' i a xs q = lseg h i a xs q"
  by (induction xs arbitrary: a) auto

lemma lseg_relink:
  "lseg h i a xs q \<Longrightarrow> distinct (a # xs) \<Longrightarrow>
   \<forall>b\<in>set (a # xs). length (forward (h' b)) = length (forward (h b)) \<and>
       (b \<noteq> last (a # xs) \<longrightarrow> forward (h' b) ! i = forward (h b) ! i) \<Longrightarrow>
   forward (h' (last (a # xs))) ! i = q' \<Longrightarrow>
   lseg h' i a xs q'"
proof (induction xs arbitrary: a)
  case Nil
  then show ?case by simp
next
  case (Cons b bs)
  have ne: "a \<noteq> last (b # bs)" using Cons.prems(2) by auto
  have "lseg h' i b bs q'"
  proof (rule Cons.IH)
    show "lseg h i b bs q" using Cons.prems(1) by simp
    show "distinct (b # bs)" using Cons.prems(2) by simp
    show "\<forall>c\<in>set (b # bs). length (forward (h' c)) = length (forward (h c)) \<and>
       (c \<noteq> last (b # bs) \<longrightarrow> forward (h' c) ! i = forward (h c) ! i)"
      using Cons.prems(3) by simp
    show "forward (h' (last (b # bs))) ! i = q'" using Cons.prems(4) by simp
  qed
  moreover have "forward (h' a) ! i = forward (h a) ! i" "length (forward (h' a)) = length (forward (h a))"
    using Cons.prems(3) ne by auto
  ultimately show ?case using Cons.prems(1) by simp
qed

lemma advance_lseg:
  "lseg h i cur (xs @ ys) None \<Longrightarrow> \<forall>a\<in>set xs. cmp (key (h a)) k < 0 \<Longrightarrow>
   \<forall>b\<in>set ys. \<not> cmp (key (h b)) k < 0 \<Longrightarrow>
   advance h cmp k i cur = Some (Inr (last (cur # xs)))"
proof (induction xs arbitrary: cur)
  case Nil
  then show ?case
    by (cases ys) (simp_all add: advance.simps)
next
  case (Cons x xs)
  have "advance h cmp k i x = Some (Inr (last (x # xs)))"
    using Cons.prems by (intro Cons.IH) auto
  then show ?case using Cons.prems
    by (subst advance.simps) simp
qed

lemma filter_last_split:
  "filter Q xs \<noteq> [] \<Longrightarrow>
   \<exists>p1 p2. xs = p1 @ last (filter Q xs) # p2 \<and> Q (last (filter Q xs)) \<and> filter Q p2 = []"
proof (induction xs rule: rev_induct)
  case Nil
  then show ?case by simp
next
  case (snoc x xs)
  show ?case
  proof (cases "Q x")
    case True
    then show ?thesis by (intro exI[of _ xs] exI[of _ "[]"]) simp
  next
    case False
    then have ne: "filter Q xs \<noteq> []" using snoc.prems by simp
    from snoc.IH[OF ne] obtain p1 p2 where
      "xs = p1 @ last (filter Q xs) # p2" "Q (last (filter Q xs))" "filter Q p2 = []" by blast
    then show ?thesis using False
      by (intro exI[of _ p1] exI[of _ "p2 @ [x]"]) simp
  qed
qed

lemma advance_pred:
  assumes full: "lseg h i hdr (lvl h i (pre @ post)) None"
    and lt: "\<forall>a\<in>set pre. cmp (key (h a)) k < 0"
    and ge: "\<forall>b\<in>set post. \<not> cmp (key (h b)) k < 0"
  shows "advance h cmp k i (pred h hdr (Suc i) pre) = Some (Inr (pred h hdr i pre))"
proof (cases "lvl h (Suc i) pre = []")
  case True
  have "advance h cmp k i hdr = Some (Inr (last (hdr # lvl h i pre)))"
    using full lt ge by (intro advance_lseg[where ys = "lvl h i post"]) (auto simp: lvl_def)
  then show ?thesis using True by (simp add: pred_def)
next
  case False
  let ?Q = "\<lambda>a. Suc i < length (forward (h a))"
  let ?c = "last (filter ?Q pre)"
  from False have "filter ?Q pre \<noteq> []" by (simp add: lvl_def)
  from filter_last_split[OF this] obtain p1 p2 where
    sp: "pre = p1 @ ?c # p2" and qc: "?Q ?c" and p2: "filter ?Q p2 = []" by blast
  have c: "pred h hdr (Suc i) pre = ?c" using False by (simp add: pred_def lvl_def)
  have li: "lvl h i pre = lvl h i p1 @ ?c # lvl h i p2"
    using qc by (subst sp) (simp add: lvl_def)
  have "lseg h i hdr (lvl h i p1 @ ?c # (lvl h i p2 @ lvl h i post)) None"
    using full li by (simp add: lvl_def)
  then have "lseg h i ?c (lvl h i p2 @ lvl h i post) None"
    by (simp only: lseg_append)
  moreover have "\<forall>a\<in>set (lvl h i p2). cmp (key (h a)) k < 0"
    using lt sp by (metis (no_types, lifting) Un_iff filter_is_subset list.set_intros(2) lvl_def set_append subsetD)
  moreover have "\<forall>b\<in>set (lvl h i post). \<not> cmp (key (h b)) k < 0"
    using ge by (simp add: lvl_def)
  ultimately have "advance h cmp k i ?c = Some (Inr (last (?c # lvl h i p2)))"
    by (rule advance_lseg)
  then show ?thesis using c li by (simp add: pred_def)
qed

lemma valid_lseg:
  "valid sl ns \<Longrightarrow> i < length (forward (nodes sl (header sl))) \<Longrightarrow>
   lseg (nodes sl) i (header sl) (lvl (nodes sl) i ns) None"
  by (simp add: valid_def)

lemma valid_height:
  "valid sl ns \<Longrightarrow> a \<in> set ns \<Longrightarrow>
   0 < length (forward (nodes sl a)) \<and> length (forward (nodes sl a)) \<le> Suc (level sl)"
  by (simp add: valid_def)

lemma valid_level: "valid sl ns \<Longrightarrow> level sl < length (forward (nodes sl (header sl)))"
  by (simp add: valid_def)

lemma valid_distinct: "valid sl ns \<Longrightarrow> distinct (header sl # ns)"
  by (simp add: valid_def)

lemma valid_fresh: "valid sl ns \<Longrightarrow> nextRef sl \<notin> set (header sl # ns)"
  by (auto simp: valid_def)

lemma valid_sorted:
  "valid sl ns \<Longrightarrow> sorted_wrt (\<lambda>a b. cmpKey sl (key (nodes sl a)) (key (nodes sl b)) < 0) ns"
  by (simp add: valid_def)

lemma valid_backs: "valid sl ns \<Longrightarrow> backs (nodes sl) None ns"
  by (simp add: valid_def)

lemma valid_length: "valid sl ns \<Longrightarrow> lengthSL sl = int (length ns)"
  by (simp add: valid_def)

lemma descend_pred:
  assumes "\<forall>i<n. lseg h i hdr (lvl h i (pre @ post)) None"
    and "\<forall>a\<in>set pre. cmp (key (h a)) k < 0"
    and "\<forall>b\<in>set post. \<not> cmp (key (h b)) k < 0"
    and "n \<le> length update"
  shows "descend h cmp k n (pred h hdr n pre) update =
     ret (map (\<lambda>j. if j < n then Some (pred h hdr j pre) else update ! j) [0..<length update],
          pred h hdr 0 pre)"
  using assms
proof (induction n arbitrary: update)
  case 0
  then show ?case by (simp add: map_nth)
next
  case (Suc n)
  have adv: "advance h cmp k n (pred h hdr (Suc n) pre) = Some (Inr (pred h hdr n pre))"
    using Suc.prems by (intro advance_pred) auto
  have rec: "descend h cmp k n (pred h hdr n pre) (update[n := Some (pred h hdr n pre)]) =
     ret (map (\<lambda>j. if j < n then Some (pred h hdr j pre)
                    else update[n := Some (pred h hdr n pre)] ! j)
            [0..<length (update[n := Some (pred h hdr n pre)])], pred h hdr 0 pre)"
    using Suc.prems by (intro Suc.IH) auto
  have eq: "map (\<lambda>j. if j < n then Some (pred h hdr j pre)
                    else update[n := Some (pred h hdr n pre)] ! j)
            [0..<length (update[n := Some (pred h hdr n pre)])] =
        map (\<lambda>j. if j < Suc n then Some (pred h hdr j pre) else update ! j) [0..<length update]"
    by (auto simp: nth_list_update less_Suc_eq)
  have "descend h cmp k (Suc n) (pred h hdr (Suc n) pre) update =
        descend h cmp k n (pred h hdr n pre) (update[n := Some (pred h hdr n pre)])"
    using Suc.prems(4) adv by (simp add: bindR_def)
  then show ?case unfolding rec eq .
qed

lemma pred_top:
  "\<forall>a\<in>set pre. length (forward (h a)) \<le> n \<Longrightarrow> pred h hdr n pre = hdr"
  by (auto simp: pred_def lvl_def filter_empty_conv)

lemma lvl_zero:
  "\<forall>a\<in>set ns. 0 < length (forward (h a)) \<Longrightarrow> lvl h 0 ns = ns"
  by (simp add: lvl_def)

lemma lseg_next:
  "lseg h i a (pre @ post) None \<Longrightarrow>
   i < length (forward (h (last (a # pre)))) \<and> forward (h (last (a # pre))) ! i = nxt post"
proof (cases post)
  case Nil
  assume "lseg h i a (pre @ post) None"
  then show ?thesis using Nil lseg_last[of h i a pre None] by (simp add: nxt_def)
next
  case (Cons b bs)
  assume "lseg h i a (pre @ post) None"
  then have "lseg h i a pre (Some b)" using Cons by (simp add: lseg_append)
  then show ?thesis using Cons lseg_last[of h i a pre "Some b"] by (simp add: nxt_def)
qed

lemma findPath_valid:
  assumes v: "valid sl (pre @ post)"
    and lt: "\<forall>a\<in>set pre. cmpKey sl (key (nodes sl a)) k < 0"
    and ge: "\<forall>b\<in>set post. \<not> cmpKey sl (key (nodes sl b)) k < 0"
    and n: "n = int (length (forward (nodes sl (header sl))))"
  shows "findPath sl k n = ret (pathUpdate sl pre, nxt post)"
proof -
  let ?h = "nodes sl" and ?hdr = "header sl"
  let ?H = "length (forward (?h ?hdr))"
  have top: "pred ?h ?hdr (Suc (level sl)) pre = ?hdr"
    using v by (intro pred_top) (simp add: valid_def)
  have segs: "\<forall>i<Suc (level sl). lseg ?h i ?hdr (lvl ?h i (pre @ post)) None"
    using v by (simp add: valid_def)
  have len: "Suc (level sl) \<le> length (replicate ?H (None :: ref option))"
    using v by (simp add: valid_def)
  have d: "descend ?h (cmpKey sl) k (Suc (level sl)) ?hdr (replicate ?H None) =
      ret (map (\<lambda>j. if j < Suc (level sl) then Some (pred ?h ?hdr j pre)
                     else replicate ?H None ! j) [0..<length (replicate ?H (None :: ref option))],
           pred ?h ?hdr 0 pre)"
    using descend_pred[where h = ?h and hdr = ?hdr and cmp = "cmpKey sl" and k = k
        and n = "Suc (level sl)" and pre = pre and post = post
        and update = "replicate ?H None", OF segs lt ge len] top by simp
  have u: "map (\<lambda>j. if j < Suc (level sl) then Some (pred ?h ?hdr j pre)
                     else replicate ?H None ! j) [0..<length (replicate ?H (None :: ref option))]
         = pathUpdate sl pre"
    by (auto simp: pathUpdate_def less_Suc_eq_le)
  have z: "lvl ?h 0 (pre @ post) = pre @ post"
    using v by (intro lvl_zero) (simp add: valid_def)
  have z': "lvl ?h 0 pre = pre"
    using v by (intro lvl_zero) (simp add: valid_def)
  have "0 < ?H" using valid_level[OF v] by (cases "forward (?h ?hdr)") auto
  from valid_lseg[OF v this] have "lseg ?h 0 ?hdr (pre @ post) None"
    using z by simp
  from lseg_next[OF this] have "fwd (?h (pred ?h ?hdr 0 pre)) 0 = Inr (nxt post)"
    by (simp add: fwd_def idx_def pred_def z')
  then show ?thesis using d u n by (simp add: findPath_def bindR_def ret_def)
qed

lemma three_way_trans:
  "three_way cmp \<Longrightarrow> cmp a b < 0 \<Longrightarrow> cmp b c < 0 \<Longrightarrow> cmp a c < 0"
  unfolding three_way_def
  by (smt (verit, best))

lemma three_way_eq_trans:
  "three_way cmp \<Longrightarrow> cmp a b < 0 \<Longrightarrow> cmp b c = 0 \<Longrightarrow> cmp a c < 0"
  unfolding three_way_def
  by (smt (verit, best))

lemma three_way_refl: "three_way cmp \<Longrightarrow> cmp a a = 0"
  unfolding three_way_def
  by (smt (verit, best))

lemma raiseUpdate_eq:
  "i + n \<le> length update \<Longrightarrow>
   raiseUpdate update hdr i n =
     Inr (map (\<lambda>j. if i \<le> j \<and> j < i + n then Some hdr else update ! j) [0..<length update])"
proof (induction n arbitrary: update i)
  case 0
  have "update = map (\<lambda>j. if i \<le> j \<and> j < i + 0 then Some hdr else update ! j) [0..<length update]"
    by (rule nth_equalityI) auto
  then show ?case by simp
next
  case (Suc n)
  have "raiseUpdate (update[i := Some hdr]) hdr (Suc i) n =
     Inr (map (\<lambda>j. if Suc i \<le> j \<and> j < Suc i + n then Some hdr else update[i := Some hdr] ! j)
            [0..<length (update[i := Some hdr])])"
    using Suc.prems by (intro Suc.IH) simp
  moreover have "map (\<lambda>j. if Suc i \<le> j \<and> j < Suc i + n then Some hdr else update[i := Some hdr] ! j)
            [0..<length (update[i := Some hdr])] =
        map (\<lambda>j. if i \<le> j \<and> j < i + Suc n then Some hdr else update ! j) [0..<length update]"
    by (auto simp: nth_list_update)
  ultimately show ?case using Suc.prems by simp
qed

lemma linkForward_char:
  assumes "\<forall>j. i \<le> j \<and> j < i + n \<longrightarrow>
             j < length update \<and> update ! j = Some (u j) \<and> u j \<noteq> r \<and>
             j < length (forward (h (u j))) \<and> j < length (forward (h r))"
  shows "\<exists>h'. linkForward h update r i n = Inr h' \<and>
     (\<forall>a. key (h' a) = key (h a) \<and> item (h' a) = item (h a) \<and>
          backward (h' a) = backward (h a) \<and> ItemPtr.more (h' a) = ItemPtr.more (h a) \<and>
          length (forward (h' a)) = length (forward (h a))) \<and>
     (\<forall>a j. a \<noteq> r \<longrightarrow> forward (h' a) ! j =
          (if i \<le> j \<and> j < i + n \<and> u j = a then Some r else forward (h a) ! j)) \<and>
     (\<forall>j. forward (h' r) ! j =
          (if i \<le> j \<and> j < i + n then forward (h (u j)) ! j else forward (h r) ! j))"
  using assms
proof (induction n arbitrary: h i)
  case 0
  then show ?case by auto
next
  case (Suc n)
  let ?v = "forward (h (u i)) ! i"
  let ?h1 = "h(r := (h r)\<lparr>forward := (forward (h r))[i := ?v]\<rparr>)"
  let ?h2 = "?h1(u i := (?h1 (u i))\<lparr>forward := (forward (?h1 (u i)))[i := Some r]\<rparr>)"
  have here: "i < length update" "update ! i = Some (u i)" "u i \<noteq> r"
      "i < length (forward (h (u i)))" "i < length (forward (h r))"
    using Suc.prems by auto
  have step: "linkForward h update r i (Suc n) = linkForward ?h2 update r (Suc i) n"
    using here by (simp add: bindE_def idx_def fwd_def Let_def)
  have pre2: "\<forall>j. Suc i \<le> j \<and> j < Suc i + n \<longrightarrow>
             j < length update \<and> update ! j = Some (u j) \<and> u j \<noteq> r \<and>
             j < length (forward (?h2 (u j))) \<and> j < length (forward (?h2 r))"
  proof (intro allI impI)
    fix j assume "Suc i \<le> j \<and> j < Suc i + n"
    then have "i \<le> j \<and> j < i + Suc n" by simp
    from Suc.prems[rule_format, OF this] show "j < length update \<and> update ! j = Some (u j) \<and> u j \<noteq> r \<and>
             j < length (forward (?h2 (u j))) \<and> j < length (forward (?h2 r))"
      using here(3) by auto
  qed
  from Suc.IH[OF pre2] obtain h' where
    run: "linkForward ?h2 update r (Suc i) n = Inr h'" and
    same: "\<forall>a. key (h' a) = key (?h2 a) \<and> item (h' a) = item (?h2 a) \<and>
          backward (h' a) = backward (?h2 a) \<and> ItemPtr.more (h' a) = ItemPtr.more (?h2 a) \<and>
          length (forward (h' a)) = length (forward (?h2 a))" and
    oth: "\<forall>a j. a \<noteq> r \<longrightarrow> forward (h' a) ! j =
          (if Suc i \<le> j \<and> j < Suc i + n \<and> u j = a then Some r else forward (?h2 a) ! j)" and
    new: "\<forall>j. forward (h' r) ! j =
          (if Suc i \<le> j \<and> j < Suc i + n then forward (?h2 (u j)) ! j else forward (?h2 r) ! j)"
    by blast
  have a: "\<forall>a. key (h' a) = key (h a) \<and> item (h' a) = item (h a) \<and>
          backward (h' a) = backward (h a) \<and> ItemPtr.more (h' a) = ItemPtr.more (h a) \<and>
          length (forward (h' a)) = length (forward (h a))"
    using same here by simp
  have b: "\<forall>a j. a \<noteq> r \<longrightarrow> forward (h' a) ! j =
          (if i \<le> j \<and> j < i + Suc n \<and> u j = a then Some r else forward (h a) ! j)"
  proof (intro allI impI)
    fix a j assume ar: "a \<noteq> r"
    show "forward (h' a) ! j =
          (if i \<le> j \<and> j < i + Suc n \<and> u j = a then Some r else forward (h a) ! j)"
    proof (cases "j = i")
      case True
      then show ?thesis using oth ar here by (auto simp: nth_list_update)
    next
      case False
      then show ?thesis using oth ar here by (auto simp: nth_list_update)
    qed
  qed
  have c: "\<forall>j. forward (h' r) ! j =
          (if i \<le> j \<and> j < i + Suc n then forward (h (u j)) ! j else forward (h r) ! j)"
  proof
    fix j
    show "forward (h' r) ! j =
          (if i \<le> j \<and> j < i + Suc n then forward (h (u j)) ! j else forward (h r) ! j)"
    proof (cases "j = i")
      case True
      then show ?thesis using new here by (simp add: nth_list_update)
    next
      case False
      have "Suc i \<le> j \<and> j < Suc i + n \<Longrightarrow> u j \<noteq> r" using Suc.prems by auto
      then show ?thesis using new here False by (auto simp: nth_list_update)
    qed
  qed
  show ?case using step run a b c by simp
qed

lemma lseg_split:
  "lseg h i a (xs @ ys) None \<Longrightarrow>
   lseg h i a xs (nxt ys) \<and> (\<forall>b bs. ys = b # bs \<longrightarrow> lseg h i b bs None)"
  by (cases ys) (simp_all add: nxt_def lseg_append)

lemma backs_append:
  "backs h p (xs @ ys) = (backs h p xs \<and> backs h (if xs = [] then p else Some (last xs)) ys)"
  by (induction xs arbitrary: p) auto

lemma backs_frame:
  "\<forall>a\<in>set xs. backward (h' a) = backward (h a) \<Longrightarrow> backs h' p xs = backs h p xs"
  by (induction xs arbitrary: p) auto

lemma lvl_cong:
  "\<forall>a\<in>set xs. length (forward (h' a)) = length (forward (h a)) \<Longrightarrow> lvl h' i xs = lvl h i xs"
  by (auto simp: lvl_def intro: filter_cong)

lemma lvl_append: "lvl h i (xs @ ys) = lvl h i xs @ lvl h i ys"
  by (simp add: lvl_def)

lemma lvl_subset: "set (lvl h i xs) \<subseteq> set xs"
  by (auto simp: lvl_def)

lemma lvl_distinct: "distinct xs \<Longrightarrow> distinct (lvl h i xs)"
  by (simp add: lvl_def)

lemma pred_in: "pred h hdr i pre \<in> set (hdr # pre)"
proof -
  have "last (hdr # lvl h i pre) \<in> set (hdr # lvl h i pre)" by (rule last_in_set) simp
  then show ?thesis using lvl_subset[of h i pre] by (auto simp: pred_def)
qed

lemma pred_zero:
  "\<forall>a\<in>set pre. 0 < length (forward (h a)) \<Longrightarrow> pred h hdr 0 pre = last (hdr # pre)"
  by (simp add: pred_def lvl_zero)

lemma insert_store_valid:
  fixes sl sl' :: "('t, 'k, ('t, 'k, 'z) ItemPtr_scheme, 'y) ZeroCopySkiplist_scheme"
  assumes v: "valid sl (pre @ post)"
    and lt: "\<forall>a\<in>set pre. cmpKey sl (key (nodes sl a)) k < 0"
    and gt: "\<forall>b\<in>set post. cmpKey sl k (key (nodes sl b)) < 0"
    and nl: "newLevel < length (forward (nodes sl (header sl)))"
    and hd': "header sl' = header sl"
    and nr': "nextRef sl' = Suc (nextRef sl)"
    and lv': "level sl' = max (level sl) newLevel"
    and cmp': "cmpKey sl' = cmpKey sl"
    and len': "lengthSL sl' = lengthSL sl + 1"
    and hts: "\<forall>a. length (forward (nodes sl' a)) =
                (if a = nextRef sl then Suc newLevel else length (forward (nodes sl a)))"
    and keys: "\<forall>a. key (nodes sl' a) = (if a = nextRef sl then k else key (nodes sl a))"
    and oth: "\<forall>a j. a \<noteq> nextRef sl \<longrightarrow> forward (nodes sl' a) ! j =
                (if j \<le> newLevel \<and> pred (nodes sl) (header sl) j pre = a then Some (nextRef sl)
                 else forward (nodes sl a) ! j)"
    and new: "\<forall>j\<le>newLevel. forward (nodes sl' (nextRef sl)) ! j =
                forward (nodes sl (pred (nodes sl) (header sl) j pre)) ! j"
    and bk: "\<forall>a. backward (nodes sl' a) =
                (if a = nextRef sl then (if pre = [] then None else Some (last pre))
                 else if nxt post = Some a then Some (nextRef sl) else backward (nodes sl a))"
  shows "valid sl' (pre @ nextRef sl # post)"
proof -
  let ?h = "nodes sl" and ?h' = "nodes sl'" and ?hdr = "header sl" and ?r = "nextRef sl"
  let ?H = "length (forward (?h ?hdr))"
  have dist: "distinct (?hdr # pre @ post)" using valid_distinct[OF v] .
  have fresh: "?r \<notin> set (?hdr # pre @ post)" using valid_fresh[OF v] .
  have r_pre: "?r \<notin> set pre" and r_post: "?r \<notin> set post" and r_hdr: "?r \<noteq> ?hdr"
    using fresh by auto
  have Hsame: "length (forward (?h' ?hdr)) = ?H" using hts r_hdr by simp
  have ht_old: "\<And>a. a \<in> set (?hdr # pre @ post) \<Longrightarrow>
      length (forward (?h' a)) = length (forward (?h a))"
    using hts fresh by auto
  have lvl_pre: "\<And>i. lvl ?h' i pre = lvl ?h i pre"
    using ht_old by (intro lvl_cong) auto
  have lvl_post: "\<And>i. lvl ?h' i post = lvl ?h i post"
    using ht_old by (intro lvl_cong) auto
  have c1: "distinct (pre @ ?r # post)" using dist r_pre r_post by auto
  have c2: "header sl' \<notin> set (pre @ ?r # post)" using dist r_hdr hd' by auto
  have c3: "header sl' < nextRef sl'" using v hd' nr' by (simp add: valid_def)
  have c4: "\<forall>a\<in>set (pre @ ?r # post). a < nextRef sl'"
    using v nr' by (auto simp: valid_def less_Suc_eq)
  have c5: "level sl' < length (forward (?h' (header sl')))"
    using valid_level[OF v] nl lv' hd' Hsame by simp
  have c6: "\<forall>a\<in>set (pre @ ?r # post). 0 < length (forward (?h' a)) \<and>
                    length (forward (?h' a)) \<le> Suc (level sl')"
  proof
    fix a assume a: "a \<in> set (pre @ ?r # post)"
    show "0 < length (forward (?h' a)) \<and> length (forward (?h' a)) \<le> Suc (level sl')"
    proof (cases "a = ?r")
      case True
      then show ?thesis using hts lv' by simp
    next
      case False
      then have "a \<in> set (pre @ post)" using a by auto
      from valid_height[OF v this] show ?thesis using hts False lv' by (auto simp: max_def)
    qed
  qed
  have c7: "\<forall>i < length (forward (?h' (header sl'))).
          lseg ?h' i (header sl') (lvl ?h' i (pre @ ?r # post)) None"
  proof (intro allI impI)
    fix i assume "i < length (forward (?h' (header sl')))"
    then have iH: "i < ?H" using Hsame hd' by simp
    from valid_lseg[OF v iH] have full: "lseg ?h i ?hdr (lvl ?h i pre @ lvl ?h i post) None"
      by (simp add: lvl_append)
    from lseg_split[OF full] have
      s1: "lseg ?h i ?hdr (lvl ?h i pre) (nxt (lvl ?h i post))" and
      s2: "\<And>b bs. lvl ?h i post = b # bs \<Longrightarrow> lseg ?h i b bs None" by auto
    have dpre: "distinct (?hdr # lvl ?h i pre)"
      using dist lvl_subset[of ?h i pre] by (auto simp: lvl_distinct)
    show "lseg ?h' i (header sl') (lvl ?h' i (pre @ ?r # post)) None"
    proof (cases "i \<le> newLevel")
      case True
      have lv: "lvl ?h' i (pre @ ?r # post) = lvl ?h i pre @ ?r # lvl ?h i post"
        using True hts lvl_pre lvl_post by (simp add: lvl_def)
      have p: "pred ?h ?hdr i pre = last (?hdr # lvl ?h i pre)" by (simp add: pred_def)
      have a1: "lseg ?h' i ?hdr (lvl ?h i pre) (Some ?r)"
      proof (rule lseg_relink[OF s1 dpre])
        show "\<forall>b\<in>set (?hdr # lvl ?h i pre).
           length (forward (?h' b)) = length (forward (?h b)) \<and>
           (b \<noteq> last (?hdr # lvl ?h i pre) \<longrightarrow> forward (?h' b) ! i = forward (?h b) ! i)"
        proof
          fix b assume b: "b \<in> set (?hdr # lvl ?h i pre)"
          then have b': "b \<in> set (?hdr # pre @ post)" using lvl_subset[of ?h i pre] by auto
          then have "b \<noteq> ?r" using fresh by auto
          then show "length (forward (?h' b)) = length (forward (?h b)) \<and>
           (b \<noteq> last (?hdr # lvl ?h i pre) \<longrightarrow> forward (?h' b) ! i = forward (?h b) ! i)"
            using ht_old[OF b'] oth p by auto
        qed
        have "last (?hdr # lvl ?h i pre) \<in> set (?hdr # pre)" using pred_in[of ?h ?hdr i pre] p by simp
        then have "last (?hdr # lvl ?h i pre) \<noteq> ?r" using fresh by auto
        then show "forward (?h' (last (?hdr # lvl ?h i pre))) ! i = Some ?r"
          using oth True p by simp
      qed
      have nw: "forward (?h' ?r) ! i = nxt (lvl ?h i post)"
        using new True lseg_last[OF s1] p by simp
      have a2: "lseg ?h' i ?r (lvl ?h i post) None"
      proof (cases "lvl ?h i post")
        case Nil
        then show ?thesis using nw hts True by (simp add: nxt_def)
      next
        case (Cons b bs)
        have "lseg ?h' i b bs None = lseg ?h i b bs None"
        proof (rule lseg_frame, rule ballI)
          fix c assume "c \<in> set (b # bs)"
          then have cp: "c \<in> set post" using Cons lvl_subset[of ?h i post] by auto
          then have c': "c \<in> set (?hdr # pre @ post)" by simp
          have "c \<noteq> ?r" using cp r_post by auto
          moreover have "pred ?h ?hdr i pre \<noteq> c" using pred_in[of ?h ?hdr i pre] cp dist by auto
          ultimately show "length (forward (?h' c)) = length (forward (?h c)) \<and>
              forward (?h' c) ! i = forward (?h c) ! i"
            using ht_old[OF c'] oth by simp
        qed
        then show ?thesis using Cons s2[OF Cons] nw hts True by (simp add: nxt_def)
      qed
      show ?thesis using lv a1 a2 hd' by (simp add: lseg_append)
    next
      case False
      have lv: "lvl ?h' i (pre @ ?r # post) = lvl ?h i pre @ lvl ?h i post"
        using False hts lvl_pre lvl_post by (simp add: lvl_def)
      have "lseg ?h' i ?hdr (lvl ?h i pre @ lvl ?h i post) None =
            lseg ?h i ?hdr (lvl ?h i pre @ lvl ?h i post) None"
      proof (rule lseg_frame, rule ballI)
        fix c assume "c \<in> set (?hdr # lvl ?h i pre @ lvl ?h i post)"
        then have c': "c \<in> set (?hdr # pre @ post)"
          using lvl_subset[of ?h i pre] lvl_subset[of ?h i post] by auto
        then have "c \<noteq> ?r" using fresh by auto
        then show "length (forward (?h' c)) = length (forward (?h c)) \<and>
              forward (?h' c) ! i = forward (?h c) ! i"
          using ht_old[OF c'] oth False by simp
      qed
      then show ?thesis using lv full hd' by simp
    qed
  qed
  have srt: "sorted_wrt (\<lambda>a b. cmpKey sl (key (?h a)) (key (?h b)) < 0) (pre @ post)"
    using valid_sorted[OF v] .
  have c8: "sorted_wrt (\<lambda>a b. cmpKey sl' (key (?h' a)) (key (?h' b)) < 0) (pre @ ?r # post)"
  proof -
    have k_old: "\<And>a. a \<in> set (pre @ post) \<Longrightarrow> key (?h' a) = key (?h a)"
      using keys fresh by auto
    have "sorted_wrt (\<lambda>a b. cmpKey sl (key (?h' a)) (key (?h' b)) < 0) pre"
      using srt k_old by (auto simp: sorted_wrt_append intro: sorted_wrt_mono_rel[rotated])
    moreover have "sorted_wrt (\<lambda>a b. cmpKey sl (key (?h' a)) (key (?h' b)) < 0) post"
      using srt k_old by (auto simp: sorted_wrt_append intro: sorted_wrt_mono_rel[rotated])
    moreover have "\<forall>a\<in>set pre. cmpKey sl (key (?h' a)) (key (?h' ?r)) < 0"
      using lt keys k_old by simp
    moreover have "\<forall>b\<in>set post. cmpKey sl (key (?h' ?r)) (key (?h' b)) < 0"
      using gt keys k_old by simp
    moreover have "\<forall>a\<in>set pre. \<forall>b\<in>set post. cmpKey sl (key (?h' a)) (key (?h' b)) < 0"
      using srt k_old by (simp add: sorted_wrt_append)
    ultimately show ?thesis using cmp' by (simp add: sorted_wrt_append)
  qed
  have c9: "backs ?h' None (pre @ ?r # post)"
  proof -
    from valid_backs[OF v] have b1: "backs ?h None pre"
      and b2: "backs ?h (if pre = [] then None else Some (last pre)) post"
      by (simp_all add: backs_append)
    have "backs ?h' None pre = backs ?h None pre"
    proof (rule backs_frame, rule ballI)
      fix a assume a: "a \<in> set pre"
      then have "a \<noteq> ?r" using r_pre by auto
      moreover have "nxt post \<noteq> Some a" using a dist by (auto simp: nxt_def split: list.splits)
      ultimately show "backward (?h' a) = backward (?h a)" using bk by simp
    qed
    then have n1: "backs ?h' None pre" using b1 by simp
    have n2: "backward (?h' ?r) = (if pre = [] then None else Some (last pre))" using bk by simp
    have n3: "backs ?h' (Some ?r) post"
    proof (cases post)
      case Nil
      then show ?thesis by simp
    next
      case (Cons b bs)
      have "backs ?h' (Some b) bs = backs ?h (Some b) bs"
      proof (rule backs_frame, rule ballI)
        fix a assume a: "a \<in> set bs"
        then have "a \<noteq> ?r" using r_post Cons by auto
        moreover have "nxt post \<noteq> Some a" using a dist Cons by (auto simp: nxt_def)
        ultimately show "backward (?h' a) = backward (?h a)" using bk by simp
      qed
      moreover have "backward (?h' b) = Some ?r" using bk r_post Cons by (auto simp: nxt_def)
      ultimately show ?thesis using b2 Cons by simp
    qed
    show ?thesis using n1 n2 n3 by (simp add: backs_append)
  qed
  have c10: "lengthSL sl' = int (length (pre @ ?r # post))"
    using valid_length[OF v] len' by simp
  show ?thesis
    unfolding valid_def using c1 c2 c3 c4 c5 c6 c7 c8 c9 c10 by blast
qed

lemma valid_pred_height:
  assumes v: "valid sl (pre @ post)" and j: "j < length (forward (nodes sl (header sl)))"
  shows "j < length (forward (nodes sl (pred (nodes sl) (header sl) j pre))) \<and>
         forward (nodes sl (pred (nodes sl) (header sl) j pre)) ! j = nxt (lvl (nodes sl) j post)"
proof -
  from valid_lseg[OF v j] have "lseg (nodes sl) j (header sl)
      (lvl (nodes sl) j pre @ lvl (nodes sl) j post) None" by (simp add: lvl_append)
  from lseg_next[OF this] show ?thesis by (simp add: pred_def)
qed

lemma valid_pred_above:
  assumes v: "valid sl (pre @ post)" and j: "level sl < j"
  shows "pred (nodes sl) (header sl) j pre = header sl"
proof (rule pred_top, rule ballI)
  fix a assume "a \<in> set pre"
  then have "a \<in> set (pre @ post)" by simp
  from valid_height[OF v this] show "length (forward (nodes sl a)) \<le> j" using j by simp
qed

lemma insertNode_store:
  fixes sl :: "('t, 'k, ('t, 'k, 'z) ItemPtr_scheme, 'y) ZeroCopySkiplist_scheme"
  assumes v: "valid sl (pre @ post)"
    and nl: "newLevel < length (forward (nodes sl (header sl)))"
    and fw: "forward newNode = replicate (Suc newLevel) None"
    and bw: "backward newNode = None"
  shows "\<exists>h'. insertNode sl (pathUpdate sl pre) newLevel newNode =
            Inr (sl\<lparr>level := max (level sl) newLevel, nodes := h',
                    nextRef := Suc (nextRef sl), lengthSL := lengthSL sl + 1\<rparr>) \<and>
     (\<forall>a. length (forward (h' a)) =
                (if a = nextRef sl then Suc newLevel else length (forward (nodes sl a)))) \<and>
     (\<forall>a. key (h' a) = (if a = nextRef sl then key newNode else key (nodes sl a))) \<and>
     (\<forall>a. item (h' a) = (if a = nextRef sl then item newNode else item (nodes sl a))) \<and>
     (\<forall>a. ItemPtr.more (h' a) =
            (if a = nextRef sl then ItemPtr.more newNode else ItemPtr.more (nodes sl a))) \<and>
     (\<forall>a j. a \<noteq> nextRef sl \<longrightarrow> forward (h' a) ! j =
                (if j \<le> newLevel \<and> pred (nodes sl) (header sl) j pre = a then Some (nextRef sl)
                 else forward (nodes sl a) ! j)) \<and>
     (\<forall>j\<le>newLevel. forward (h' (nextRef sl)) ! j =
                forward (nodes sl (pred (nodes sl) (header sl) j pre)) ! j) \<and>
     (\<forall>a. backward (h' a) =
                (if a = nextRef sl then (if pre = [] then None else Some (last pre))
                 else if nxt post = Some a then Some (nextRef sl) else backward (nodes sl a)))"
proof -
  let ?h = "nodes sl" and ?hdr = "header sl" and ?r = "nextRef sl"
  let ?H = "length (forward (?h ?hdr))"
  let ?p = "\<lambda>j. pred ?h ?hdr j pre"
  let ?top = "max (level sl) newLevel"
  let ?upd = "map (\<lambda>j. if j \<le> ?top then Some (?p j) else None) [0..<?H]"
  let ?h1 = "?h(?r := newNode)"
  have fresh: "?r \<notin> set (?hdr # pre @ post)" using valid_fresh[OF v] .
  have dist: "distinct (?hdr # pre @ post)" using valid_distinct[OF v] .
  have lvH: "level sl < ?H" using valid_level[OF v] .
  have p_ne: "\<And>j. ?p j \<noteq> ?r"
  proof -
    fix j
    show "?p j \<noteq> ?r" using pred_in[of ?h ?hdr j pre] fresh by auto
  qed
  have raise: "(if newLevel > level sl
            then raiseUpdate (pathUpdate sl pre) ?hdr (Suc (level sl)) (newLevel - level sl)
            else Inr (pathUpdate sl pre)) = Inr ?upd"
  proof (cases "newLevel > level sl")
    case True
    have "Suc (level sl) + (newLevel - level sl) \<le> length (pathUpdate sl pre)"
      using True nl by (simp add: pathUpdate_def)
    from raiseUpdate_eq[OF this, of ?hdr]
    have "raiseUpdate (pathUpdate sl pre) ?hdr (Suc (level sl)) (newLevel - level sl) =
       Inr (map (\<lambda>j. if Suc (level sl) \<le> j \<and> j < Suc (level sl) + (newLevel - level sl)
                   then Some ?hdr else pathUpdate sl pre ! j) [0..<?H])"
      by (simp add: pathUpdate_def)
    moreover have "map (\<lambda>j. if Suc (level sl) \<le> j \<and> j < Suc (level sl) + (newLevel - level sl)
                   then Some ?hdr else pathUpdate sl pre ! j) [0..<?H] = ?upd"
    proof (rule map_cong[OF refl])
      fix j assume "j \<in> set [0..<?H]"
      then have jH: "j < ?H" by simp
      show "(if Suc (level sl) \<le> j \<and> j < Suc (level sl) + (newLevel - level sl)
                   then Some ?hdr else pathUpdate sl pre ! j) =
            (if j \<le> ?top then Some (?p j) else None)"
      proof (cases "level sl < j")
        case True
        then show ?thesis using valid_pred_above[OF v True] jH
          by (auto simp: pathUpdate_def)
      next
        case False
        then show ?thesis using jH by (auto simp: pathUpdate_def)
      qed
    qed
    ultimately show ?thesis using True by simp
  next
    case False
    then have "?top = level sl" by simp
    then show ?thesis using False by (simp add: pathUpdate_def)
  qed
  have lk: "\<forall>j. 0 \<le> j \<and> j < 0 + Suc newLevel \<longrightarrow>
             j < length ?upd \<and> ?upd ! j = Some (?p j) \<and> ?p j \<noteq> ?r \<and>
             j < length (forward (?h1 (?p j))) \<and> j < length (forward (?h1 ?r))"
  proof (intro allI impI)
    fix j assume "0 \<le> j \<and> j < 0 + Suc newLevel"
    then have jn: "j \<le> newLevel" by simp
    then have jH: "j < ?H" using nl by simp
    show "j < length ?upd \<and> ?upd ! j = Some (?p j) \<and> ?p j \<noteq> ?r \<and>
             j < length (forward (?h1 (?p j))) \<and> j < length (forward (?h1 ?r))"
      using jn jH p_ne[of j] valid_pred_height[OF v jH] fw by simp
  qed
  from linkForward_char[OF lk] obtain h2 where
    run: "linkForward ?h1 ?upd ?r 0 (Suc newLevel) = Inr h2" and
    same: "\<forall>a. key (h2 a) = key (?h1 a) \<and> item (h2 a) = item (?h1 a) \<and>
          backward (h2 a) = backward (?h1 a) \<and> ItemPtr.more (h2 a) = ItemPtr.more (?h1 a) \<and>
          length (forward (h2 a)) = length (forward (?h1 a))" and
    oth: "\<forall>a j. a \<noteq> ?r \<longrightarrow> forward (h2 a) ! j =
          (if 0 \<le> j \<and> j < 0 + Suc newLevel \<and> ?p j = a then Some ?r else forward (?h1 a) ! j)" and
    new: "\<forall>j. forward (h2 ?r) ! j =
          (if 0 \<le> j \<and> j < 0 + Suc newLevel then forward (?h1 (?p j)) ! j else forward (?h1 ?r) ! j)"
    by blast
  have H0: "0 < ?H" using lvH by (cases "forward (?h ?hdr)") auto
  have pos: "\<forall>a\<in>set (pre @ post). 0 < length (forward (?h a))"
    using valid_height[OF v] by blast
  then have lz: "lvl ?h 0 post = post" by (intro lvl_zero) simp
  define u where "u = last (?hdr # pre)"
  have p0: "?p 0 = u" unfolding u_def using pos by (intro pred_zero) simp
  have nx: "fwd (h2 ?r) 0 = Inr (nxt post)"
    using new same fw valid_pred_height[OF v H0] p_ne[of 0] lz by (simp add: fwd_def idx_def)
  have u0: "idx ?upd 0 = Inr (Some u)"
    using H0 p0 by (simp add: idx_def upt_conv_Cons)
  have u0h: "(u = ?hdr) = (pre = [])"
    unfolding u_def using dist by (cases pre rule: rev_cases) auto
  have ul: "pre \<noteq> [] \<Longrightarrow> u = last pre" unfolding u_def by simp
  let ?h3 = "(case nxt post of None \<Rightarrow> h2 | Some s \<Rightarrow> h2(s := (h2 s)\<lparr>backward := Some ?r\<rparr>))"
  let ?h4 = "(if pre \<noteq> [] then ?h3(?r := (?h3 ?r)\<lparr>backward := Some u\<rparr>) else ?h3)"
  have res: "insertNode sl (pathUpdate sl pre) newLevel newNode =
            Inr (sl\<lparr>level := max (level sl) newLevel, nodes := ?h4,
                    nextRef := Suc ?r, lengthSL := lengthSL sl + 1\<rparr>)"
  proof -
    have lvl_eq: "(if newLevel > level sl then newLevel else level sl) = max (level sl) newLevel"
      by auto
    show ?thesis
      unfolding insertNode_def raise lvl_eq
      by (simp add: bindE_def Let_def run nx u0 u0h del: linkForward.simps)
  qed
  have nr: "nxt post \<noteq> Some ?r" using fresh by (auto simp: nxt_def split: list.splits)
  have q1: "\<forall>a. length (forward (?h4 a)) =
                (if a = ?r then Suc newLevel else length (forward (?h a)))"
    using same fw by (auto split: option.splits)
  have q2: "\<forall>a. key (?h4 a) = (if a = ?r then key newNode else key (?h a))"
    using same by (auto split: option.splits)
  have q3: "\<forall>a. item (?h4 a) = (if a = ?r then item newNode else item (?h a))"
    using same by (auto split: option.splits)
  have q4: "\<forall>a. ItemPtr.more (?h4 a) =
            (if a = ?r then ItemPtr.more newNode else ItemPtr.more (?h a))"
    using same by (auto split: option.splits)
  have q5: "\<forall>a j. a \<noteq> ?r \<longrightarrow> forward (?h4 a) ! j =
                (if j \<le> newLevel \<and> ?p j = a then Some ?r else forward (?h a) ! j)"
    using oth by (auto split: option.splits)
  have q6: "\<forall>j\<le>newLevel. forward (?h4 ?r) ! j = forward (?h (?p j)) ! j"
    using new p_ne by (auto split: option.splits)
  have q7: "\<forall>a. backward (?h4 a) =
                (if a = ?r then (if pre = [] then None else Some (last pre))
                 else if nxt post = Some a then Some ?r else backward (?h a))"
    using same bw nr ul by (auto split: option.splits)
  show ?thesis
    using res q1 q2 q3 q4 q5 q6 q7 by blast
qed

lemma insertNode_valid:
  fixes sl :: "('t, 'k, ('t, 'k, 'z) ItemPtr_scheme, 'y) ZeroCopySkiplist_scheme"
  assumes v: "valid sl (pre @ post)"
    and lt: "\<forall>a\<in>set pre. cmpKey sl (key (nodes sl a)) (key newNode) < 0"
    and gt: "\<forall>b\<in>set post. cmpKey sl (key newNode) (key (nodes sl b)) < 0"
    and nl: "newLevel < length (forward (nodes sl (header sl)))"
    and fw: "forward newNode = replicate (Suc newLevel) None"
    and bw: "backward newNode = None"
  shows "\<exists>h'. insertNode sl (pathUpdate sl pre) newLevel newNode =
            Inr (sl\<lparr>level := max (level sl) newLevel, nodes := h',
                    nextRef := Suc (nextRef sl), lengthSL := lengthSL sl + 1\<rparr>) \<and>
     valid (sl\<lparr>level := max (level sl) newLevel, nodes := h',
                    nextRef := Suc (nextRef sl), lengthSL := lengthSL sl + 1\<rparr>)
           (pre @ nextRef sl # post) \<and>
     (\<forall>a. length (forward (h' a)) =
                (if a = nextRef sl then Suc newLevel else length (forward (nodes sl a)))) \<and>
     (\<forall>a. key (h' a) = (if a = nextRef sl then key newNode else key (nodes sl a))) \<and>
     (\<forall>a. item (h' a) = (if a = nextRef sl then item newNode else item (nodes sl a))) \<and>
     (\<forall>a. ItemPtr.more (h' a) =
            (if a = nextRef sl then ItemPtr.more newNode else ItemPtr.more (nodes sl a)))"
proof -
  from insertNode_store[OF v nl fw bw] obtain h' where
    res: "insertNode sl (pathUpdate sl pre) newLevel newNode =
            Inr (sl\<lparr>level := max (level sl) newLevel, nodes := h',
                    nextRef := Suc (nextRef sl), lengthSL := lengthSL sl + 1\<rparr>)" and
    q1: "\<forall>a. length (forward (h' a)) =
                (if a = nextRef sl then Suc newLevel else length (forward (nodes sl a)))" and
    q2: "\<forall>a. key (h' a) = (if a = nextRef sl then key newNode else key (nodes sl a))" and
    q3: "\<forall>a. item (h' a) = (if a = nextRef sl then item newNode else item (nodes sl a))" and
    q4: "\<forall>a. ItemPtr.more (h' a) =
            (if a = nextRef sl then ItemPtr.more newNode else ItemPtr.more (nodes sl a))" and
    q5: "\<forall>a j. a \<noteq> nextRef sl \<longrightarrow> forward (h' a) ! j =
                (if j \<le> newLevel \<and> pred (nodes sl) (header sl) j pre = a then Some (nextRef sl)
                 else forward (nodes sl a) ! j)" and
    q6: "\<forall>j\<le>newLevel. forward (h' (nextRef sl)) ! j =
                forward (nodes sl (pred (nodes sl) (header sl) j pre)) ! j" and
    q7: "\<forall>a. backward (h' a) =
                (if a = nextRef sl then (if pre = [] then None else Some (last pre))
                 else if nxt post = Some a then Some (nextRef sl) else backward (nodes sl a))"
    by blast
  let ?sl' = "sl\<lparr>level := max (level sl) newLevel, nodes := h',
                    nextRef := Suc (nextRef sl), lengthSL := lengthSL sl + 1\<rparr>"
  have "valid ?sl' (pre @ nextRef sl # post)"
    by (rule insert_store_valid[OF v lt gt nl, where sl' = ?sl'])
       (simp_all add: q1 q2 q5 q6 q7)
  then show ?thesis using res q1 q2 q3 q4 by blast
qed

lemma unlinkForward_char:
  assumes "\<forall>j. i \<le> j \<and> j < i + n \<longrightarrow>
             j < length update \<and> update ! j = Some (u j) \<and> u j \<noteq> c \<and>
             j < length (forward (h (u j))) \<and> j < length (forward (h c))"
  shows "\<exists>h'. unlinkForward h update c i n = Inr h' \<and>
     (\<forall>a. key (h' a) = key (h a) \<and> item (h' a) = item (h a) \<and>
          backward (h' a) = backward (h a) \<and> ItemPtr.more (h' a) = ItemPtr.more (h a) \<and>
          length (forward (h' a)) = length (forward (h a))) \<and>
     (\<forall>a j. forward (h' a) ! j =
          (if i \<le> j \<and> j < i + n \<and> u j = a then forward (h c) ! j else forward (h a) ! j))"
  using assms
proof (induction n arbitrary: h i)
  case 0
  then show ?case by auto
next
  case (Suc n)
  let ?v = "forward (h c) ! i"
  let ?h1 = "h(u i := (h (u i))\<lparr>forward := (forward (h (u i)))[i := ?v]\<rparr>)"
  have here: "i < length update" "update ! i = Some (u i)" "u i \<noteq> c"
      "i < length (forward (h (u i)))" "i < length (forward (h c))"
    using Suc.prems by auto
  have step: "unlinkForward h update c i (Suc n) = unlinkForward ?h1 update c (Suc i) n"
    using here by (simp add: bindE_def idx_def fwd_def)
  have pre2: "\<forall>j. Suc i \<le> j \<and> j < Suc i + n \<longrightarrow>
             j < length update \<and> update ! j = Some (u j) \<and> u j \<noteq> c \<and>
             j < length (forward (?h1 (u j))) \<and> j < length (forward (?h1 c))"
  proof (intro allI impI)
    fix j assume "Suc i \<le> j \<and> j < Suc i + n"
    then have "i \<le> j \<and> j < i + Suc n" by simp
    from Suc.prems[rule_format, OF this] show "j < length update \<and> update ! j = Some (u j) \<and> u j \<noteq> c \<and>
             j < length (forward (?h1 (u j))) \<and> j < length (forward (?h1 c))"
      using here(3) by auto
  qed
  from Suc.IH[OF pre2] obtain h' where
    run: "unlinkForward ?h1 update c (Suc i) n = Inr h'" and
    same: "\<forall>a. key (h' a) = key (?h1 a) \<and> item (h' a) = item (?h1 a) \<and>
          backward (h' a) = backward (?h1 a) \<and> ItemPtr.more (h' a) = ItemPtr.more (?h1 a) \<and>
          length (forward (h' a)) = length (forward (?h1 a))" and
    oth: "\<forall>a j. forward (h' a) ! j =
          (if Suc i \<le> j \<and> j < Suc i + n \<and> u j = a then forward (?h1 c) ! j
           else forward (?h1 a) ! j)"
    by blast
  have a: "\<forall>a. key (h' a) = key (h a) \<and> item (h' a) = item (h a) \<and>
          backward (h' a) = backward (h a) \<and> ItemPtr.more (h' a) = ItemPtr.more (h a) \<and>
          length (forward (h' a)) = length (forward (h a))"
    using same here by simp
  have b: "\<forall>a j. forward (h' a) ! j =
          (if i \<le> j \<and> j < i + Suc n \<and> u j = a then forward (h c) ! j else forward (h a) ! j)"
  proof (intro allI)
    fix a j
    show "forward (h' a) ! j =
          (if i \<le> j \<and> j < i + Suc n \<and> u j = a then forward (h c) ! j else forward (h a) ! j)"
    proof (cases "j = i")
      case True
      then show ?thesis using oth here by (auto simp: nth_list_update)
    next
      case False
      then show ?thesis using oth here by (auto simp: nth_list_update)
    qed
  qed
  show ?case using step run a b by simp
qed

lemma reduceLevel_char:
  "l < length (forward (h hdr)) \<Longrightarrow>
   \<exists>l'. reduceLevel h hdr l = Inr l' \<and> l' \<le> l \<and>
        (\<forall>j. l' < j \<and> j \<le> l \<longrightarrow> forward (h hdr) ! j = None)"
proof (induction l)
  case 0
  then show ?case by simp
next
  case (Suc l)
  show ?case
  proof (cases "forward (h hdr) ! Suc l = None")
    case True
    from Suc.IH obtain l' where "reduceLevel h hdr l = Inr l'" "l' \<le> l"
      "\<forall>j. l' < j \<and> j \<le> l \<longrightarrow> forward (h hdr) ! j = None" using Suc.prems by auto
    then show ?thesis using True Suc.prems
      by (auto simp: bindE_def fwd_def idx_def le_Suc_eq)
  next
    case False
    then show ?thesis using Suc.prems by (auto simp: bindE_def fwd_def idx_def)
  qed
qed

lemma lseg_nonempty_head:
  "lseg h i a (b # bs) q \<Longrightarrow> forward (h a) ! i \<noteq> None"
  by simp

lemma valid_node_next:
  assumes v: "valid sl (pre @ c # post)" and j: "j < length (forward (nodes sl c))"
  shows "forward (nodes sl c) ! j = nxt (lvl (nodes sl) j post)"
proof -
  have cin: "c \<in> set (pre @ c # post)" by simp
  have "j < length (forward (nodes sl (header sl)))"
    using valid_height[OF v cin] valid_level[OF v] j by simp
  from valid_lseg[OF v this] have "lseg (nodes sl) j (header sl)
      (lvl (nodes sl) j pre @ c # lvl (nodes sl) j post) None"
    using j by (simp add: lvl_def)
  then have "lseg (nodes sl) j c ([] @ lvl (nodes sl) j post) None" by (simp add: lseg_append)
  from lseg_next[OF this] show ?thesis by simp
qed

lemma delete_store_valid:
  fixes sl sl' :: "('t, 'k, ('t, 'k, 'z) ItemPtr_scheme, 'y) ZeroCopySkiplist_scheme"
  assumes v: "valid sl (pre @ c # post)"
    and hd': "header sl' = header sl"
    and nr': "nextRef sl' = nextRef sl"
    and lv': "level sl' \<le> level sl"
    and lvn: "\<forall>j. level sl' < j \<and> j \<le> level sl \<longrightarrow> forward (nodes sl' (header sl)) ! j = None"
    and cmp': "cmpKey sl' = cmpKey sl"
    and len': "lengthSL sl' = lengthSL sl - 1"
    and hts: "\<forall>a. length (forward (nodes sl' a)) = length (forward (nodes sl a))"
    and keys: "\<forall>a. key (nodes sl' a) = key (nodes sl a)"
    and oth: "\<forall>a j. forward (nodes sl' a) ! j =
                (if j < length (forward (nodes sl c)) \<and> pred (nodes sl) (header sl) j pre = a
                 then forward (nodes sl c) ! j else forward (nodes sl a) ! j)"
    and bk: "\<forall>a. backward (nodes sl' a) =
                (if nxt post = Some a then backward (nodes sl c) else backward (nodes sl a))"
  shows "valid sl' (pre @ post)"
proof -
  let ?h = "nodes sl" and ?h' = "nodes sl'" and ?hdr = "header sl"
  let ?H = "length (forward (?h ?hdr))"
  have dist: "distinct (?hdr # pre @ c # post)" using valid_distinct[OF v] .
  have lvl_eq: "\<And>i xs. lvl ?h' i xs = lvl ?h i xs" using hts by (simp add: lvl_def)
  have c1: "distinct (pre @ post)" using dist by auto
  have c2: "header sl' \<notin> set (pre @ post)" using dist hd' by auto
  have c3: "header sl' < nextRef sl'" using v hd' nr' by (simp add: valid_def)
  have c4: "\<forall>a\<in>set (pre @ post). a < nextRef sl'" using v nr' by (auto simp: valid_def)
  have c5: "level sl' < length (forward (?h' (header sl')))"
    using valid_level[OF v] lv' hd' hts by simp
  have c7: "\<forall>i < length (forward (?h' (header sl'))).
          lseg ?h' i (header sl') (lvl ?h' i (pre @ post)) None"
  proof (intro allI impI)
    fix i assume "i < length (forward (?h' (header sl')))"
    then have iH: "i < ?H" using hts hd' by simp
    have lv: "lvl ?h' i (pre @ post) = lvl ?h i pre @ lvl ?h i post"
      by (simp add: lvl_eq lvl_append)
    have "lseg ?h' i ?hdr (lvl ?h i pre @ lvl ?h i post) None"
    proof (cases "i < length (forward (?h c))")
      case True
      from valid_lseg[OF v iH] have full: "lseg ?h i ?hdr (lvl ?h i pre @ c # lvl ?h i post) None"
        using True by (simp add: lvl_def)
      then have s1: "lseg ?h i ?hdr (lvl ?h i pre) (Some c)"
        and s2: "lseg ?h i c ([] @ lvl ?h i post) None" by (simp_all add: lseg_append)
      have dpre: "distinct (?hdr # lvl ?h i pre)"
        using dist lvl_subset[of ?h i pre] by (auto simp: lvl_distinct)
      have p: "pred ?h ?hdr i pre = last (?hdr # lvl ?h i pre)" by (simp add: pred_def)
      have cn: "forward (?h c) ! i = nxt (lvl ?h i post)" using lseg_next[OF s2] by simp
      have a1: "lseg ?h' i ?hdr (lvl ?h i pre) (nxt (lvl ?h i post))"
      proof (rule lseg_relink[OF s1 dpre])
        show "\<forall>b\<in>set (?hdr # lvl ?h i pre).
           length (forward (?h' b)) = length (forward (?h b)) \<and>
           (b \<noteq> last (?hdr # lvl ?h i pre) \<longrightarrow> forward (?h' b) ! i = forward (?h b) ! i)"
          using hts oth p by auto
        show "forward (?h' (last (?hdr # lvl ?h i pre))) ! i = nxt (lvl ?h i post)"
          using oth True p cn by simp
      qed
      show ?thesis
      proof (cases "lvl ?h i post")
        case Nil
        then show ?thesis using a1 by (simp add: nxt_def)
      next
        case (Cons b bs)
        have sb: "lseg ?h i b bs None" using s2 Cons by simp
        have "lseg ?h' i b bs None = lseg ?h i b bs None"
        proof (rule lseg_frame, rule ballI)
          fix d assume "d \<in> set (b # bs)"
          then have dp: "d \<in> set post" using Cons lvl_subset[of ?h i post] by auto
          have "pred ?h ?hdr i pre \<noteq> d" using pred_in[of ?h ?hdr i pre] dp dist by auto
          then show "length (forward (?h' d)) = length (forward (?h d)) \<and>
              forward (?h' d) ! i = forward (?h d) ! i"
            using hts oth by simp
        qed
        then show ?thesis using a1 sb Cons by (simp add: nxt_def lseg_append)
      qed
    next
      case False
      from valid_lseg[OF v iH] have full: "lseg ?h i ?hdr (lvl ?h i pre @ lvl ?h i post) None"
        using False by (simp add: lvl_def)
      have "lseg ?h' i ?hdr (lvl ?h i pre @ lvl ?h i post) None =
            lseg ?h i ?hdr (lvl ?h i pre @ lvl ?h i post) None"
        by (rule lseg_frame) (simp add: hts oth False)
      then show ?thesis using full by simp
    qed
    then show "lseg ?h' i (header sl') (lvl ?h' i (pre @ post)) None" using lv hd' by simp
  qed
  have c6: "\<forall>a\<in>set (pre @ post). 0 < length (forward (?h' a)) \<and>
                    length (forward (?h' a)) \<le> Suc (level sl')"
  proof
    fix a assume a: "a \<in> set (pre @ post)"
    then have a': "a \<in> set (pre @ c # post)" by auto
    from valid_height[OF v a'] have h1: "0 < length (forward (?h a))"
      and h2: "length (forward (?h a)) \<le> Suc (level sl)" by auto
    have "length (forward (?h a)) \<le> Suc (level sl')"
    proof (rule ccontr)
      assume "\<not> length (forward (?h a)) \<le> Suc (level sl')"
      then have big: "Suc (level sl') < length (forward (?h a))" by simp
      define j where "j = length (forward (?h a)) - 1"
      have j1: "level sl' < j" and j2: "j \<le> level sl" and j3: "j < length (forward (?h a))"
        using big h2 by (auto simp: j_def)
      have jH: "j < length (forward (?h' (header sl')))"
        using j2 valid_level[OF v] hts hd' by simp
      have "a \<in> set (lvl ?h' j (pre @ post))" using a j3 hts by (auto simp: lvl_def)
      then obtain b bs where "lvl ?h' j (pre @ post) = b # bs"
        by (cases "lvl ?h' j (pre @ post)") auto
      then have "forward (?h' (header sl')) ! j \<noteq> None"
        using c7 jH lseg_nonempty_head[of ?h' j "header sl'" b bs None] by metis
      then show False using lvn j1 j2 hd' by simp
    qed
    then show "0 < length (forward (?h' a)) \<and> length (forward (?h' a)) \<le> Suc (level sl')"
      using h1 hts by simp
  qed
  have c8: "sorted_wrt (\<lambda>a b. cmpKey sl' (key (?h' a)) (key (?h' b)) < 0) (pre @ post)"
    using valid_sorted[OF v] keys cmp' by (simp add: sorted_wrt_append)
  have c9: "backs ?h' None (pre @ post)"
  proof -
    from valid_backs[OF v] have b1: "backs ?h None pre"
      and b2: "backward (?h c) = (if pre = [] then None else Some (last pre))"
      and b3: "backs ?h (Some c) post"
      by (simp_all add: backs_append)
    have "backs ?h' None pre = backs ?h None pre"
    proof (rule backs_frame, rule ballI)
      fix a assume a: "a \<in> set pre"
      then have "nxt post \<noteq> Some a" using dist by (auto simp: nxt_def split: list.splits)
      then show "backward (?h' a) = backward (?h a)" using bk by simp
    qed
    then have n1: "backs ?h' None pre" using b1 by simp
    have n3: "backs ?h' (if pre = [] then None else Some (last pre)) post"
    proof (cases post)
      case Nil
      then show ?thesis by simp
    next
      case (Cons b bs)
      have "backs ?h' (Some b) bs = backs ?h (Some b) bs"
      proof (rule backs_frame, rule ballI)
        fix a assume a: "a \<in> set bs"
        then have "nxt post \<noteq> Some a" using dist Cons by (auto simp: nxt_def)
        then show "backward (?h' a) = backward (?h a)" using bk by simp
      qed
      moreover have "backward (?h' b) = backward (?h c)" using bk Cons by (simp add: nxt_def)
      ultimately show ?thesis using b2 b3 Cons by simp
    qed
    show ?thesis using n1 n3 by (simp add: backs_append)
  qed
  have c10: "lengthSL sl' = int (length (pre @ post))"
    using valid_length[OF v] len' by simp
  show ?thesis
    unfolding valid_def using c1 c2 c3 c4 c5 c6 c7 c8 c9 c10 by blast
qed

lemma removeNode_valid:
  fixes sl :: "('t, 'k, ('t, 'k, 'z) ItemPtr_scheme, 'y) ZeroCopySkiplist_scheme"
  assumes v: "valid sl (pre @ c # post)"
    and n: "n = length (forward (nodes sl c))"
  shows "\<exists>h' l'. removeNode sl (pathUpdate sl pre) c n =
            Inr (sl\<lparr>level := l', nodes := h', lengthSL := lengthSL sl - 1\<rparr>) \<and>
     valid (sl\<lparr>level := l', nodes := h', lengthSL := lengthSL sl - 1\<rparr>) (pre @ post) \<and>
     (\<forall>a. length (forward (h' a)) = length (forward (nodes sl a)) \<and>
          key (h' a) = key (nodes sl a) \<and> item (h' a) = item (nodes sl a) \<and>
          ItemPtr.more (h' a) = ItemPtr.more (nodes sl a))"
proof -
  let ?h = "nodes sl" and ?hdr = "header sl"
  let ?H = "length (forward (?h ?hdr))"
  let ?p = "\<lambda>j. pred ?h ?hdr j pre"
  have dist: "distinct (?hdr # pre @ c # post)" using valid_distinct[OF v] .
  have lvH: "level sl < ?H" using valid_level[OF v] .
  have cin: "c \<in> set (pre @ c # post)" by simp
  from valid_height[OF v cin] have ch1: "0 < length (forward (?h c))"
    and ch2: "length (forward (?h c)) \<le> Suc (level sl)" by auto
  have p_ne: "\<And>j. ?p j \<noteq> c"
  proof -
    fix j
    show "?p j \<noteq> c" using pred_in[of ?h ?hdr j pre] dist by auto
  qed
  have ul: "\<forall>j. 0 \<le> j \<and> j < 0 + n \<longrightarrow>
             j < length (pathUpdate sl pre) \<and> pathUpdate sl pre ! j = Some (?p j) \<and> ?p j \<noteq> c \<and>
             j < length (forward (?h (?p j))) \<and> j < length (forward (?h c))"
  proof (intro allI impI)
    fix j assume "0 \<le> j \<and> j < 0 + n"
    then have jn: "j < length (forward (?h c))" using n by simp
    then have jl: "j \<le> level sl" using ch2 by simp
    then have jH: "j < ?H" using lvH by simp
    show "j < length (pathUpdate sl pre) \<and> pathUpdate sl pre ! j = Some (?p j) \<and> ?p j \<noteq> c \<and>
             j < length (forward (?h (?p j))) \<and> j < length (forward (?h c))"
      using jn jl jH p_ne[of j] valid_pred_height[OF v jH] by (simp add: pathUpdate_def)
  qed
  from unlinkForward_char[OF ul] obtain h1 where
    run: "unlinkForward ?h (pathUpdate sl pre) c 0 n = Inr h1" and
    same: "\<forall>a. key (h1 a) = key (?h a) \<and> item (h1 a) = item (?h a) \<and>
          backward (h1 a) = backward (?h a) \<and> ItemPtr.more (h1 a) = ItemPtr.more (?h a) \<and>
          length (forward (h1 a)) = length (forward (?h a))" and
    oth: "\<forall>a j. forward (h1 a) ! j =
          (if 0 \<le> j \<and> j < 0 + n \<and> ?p j = a then forward (?h c) ! j else forward (?h a) ! j)"
    by blast
  have pos: "\<forall>a\<in>set post. 0 < length (forward (?h a))"
    using valid_height[OF v] by auto
  then have lz: "lvl ?h 0 post = post" by (intro lvl_zero) simp
  have nx: "fwd (h1 c) 0 = Inr (nxt post)"
    using oth same ch1 p_ne[of 0] valid_node_next[OF v ch1] lz by (simp add: fwd_def idx_def)
  define h2 where "h2 = (case nxt post of None \<Rightarrow> h1
      | Some s \<Rightarrow> h1(s := (h1 s)\<lparr>backward := backward (h1 c)\<rparr>))"
  have l2: "\<forall>a. length (forward (h2 a)) = length (forward (?h a))"
    using same by (auto simp: h2_def split: option.splits)
  have f2: "\<forall>a. forward (h2 a) = forward (h1 a)"
    by (auto simp: h2_def split: option.splits)
  have "level sl < length (forward (h2 ?hdr))" using l2 lvH by simp
  from reduceLevel_char[where h = h2 and hdr = ?hdr and l = "level sl", OF this] obtain l' where
    rl: "reduceLevel h2 ?hdr (level sl) = Inr l'" and ll: "l' \<le> level sl" and
    lz': "\<forall>j. l' < j \<and> j \<le> level sl \<longrightarrow> forward (h2 ?hdr) ! j = None" by blast
  let ?sl' = "sl\<lparr>level := l', nodes := h2, lengthSL := lengthSL sl - 1\<rparr>"
  have res: "removeNode sl (pathUpdate sl pre) c n = Inr ?sl'"
    unfolding removeNode_def by (simp add: bindE_def Let_def run nx rl[unfolded h2_def] h2_def)
  have q5: "\<forall>a j. forward (h2 a) ! j =
                (if j < length (forward (?h c)) \<and> ?p j = a
                 then forward (?h c) ! j else forward (?h a) ! j)"
    using oth f2 n by simp
  have q7: "\<forall>a. backward (h2 a) =
                (if nxt post = Some a then backward (?h c) else backward (?h a))"
    using same by (auto simp: h2_def split: option.splits)
  have q2: "\<forall>a. key (h2 a) = key (?h a)" using same by (auto simp: h2_def split: option.splits)
  have q3: "\<forall>a. item (h2 a) = item (?h a)" using same by (auto simp: h2_def split: option.splits)
  have q4: "\<forall>a. ItemPtr.more (h2 a) = ItemPtr.more (?h a)"
    using same by (auto simp: h2_def split: option.splits)
  have "valid ?sl' (pre @ post)"
  proof (rule delete_store_valid[OF v])
    show "header ?sl' = header sl" by simp
    show "nextRef ?sl' = nextRef sl" by simp
    show "level ?sl' \<le> level sl" using ll by simp
    show "\<forall>j. level ?sl' < j \<and> j \<le> level sl \<longrightarrow> forward (nodes ?sl' (header sl)) ! j = None"
      using lz' by simp
    show "cmpKey ?sl' = cmpKey sl" by simp
    show "lengthSL ?sl' = lengthSL sl - 1" by simp
    show "\<forall>a. length (forward (nodes ?sl' a)) = length (forward (nodes sl a))"
      using l2 by simp
    show "\<forall>a. key (nodes ?sl' a) = key (nodes sl a)" using q2 by simp
    show "\<forall>a j. forward (nodes ?sl' a) ! j =
                (if j < length (forward (nodes sl c)) \<and> pred (nodes sl) (header sl) j pre = a
                 then forward (nodes sl c) ! j else forward (nodes sl a) ! j)"
      using q5 by simp
    show "\<forall>a. backward (nodes ?sl' a) =
                (if nxt post = Some a then backward (nodes sl c) else backward (nodes sl a))"
      using q7 by simp
  qed
  then show ?thesis using res l2 q2 q3 q4 by blast
qed

lemma sorted_dropWhile_ge:
  assumes tw: "three_way cmp"
  shows "sorted_wrt (\<lambda>a b. cmp (f a) (f b) < 0) ns \<Longrightarrow>
   \<forall>b\<in>set (dropWhile (\<lambda>a. cmp (f a) k < 0) ns). \<not> cmp (f b) k < 0"
proof (induction ns)
  case Nil
  then show ?case by simp
next
  case (Cons x xs)
  have sx: "sorted_wrt (\<lambda>a b. cmp (f a) (f b) < 0) xs" using Cons.prems by simp
  show ?case
  proof (cases "cmp (f x) k < 0")
    case True
    have eq: "dropWhile (\<lambda>a. cmp (f a) k < 0) (x # xs) = dropWhile (\<lambda>a. cmp (f a) k < 0) xs"
      using True by simp
    show ?thesis unfolding eq by (rule Cons.IH[OF sx])
  next
    case False
    have rest: "\<forall>b\<in>set xs. \<not> cmp (f b) k < 0"
    proof
      fix b assume "b \<in> set xs"
      then have xb: "cmp (f x) (f b) < 0" using Cons.prems by simp
      show "\<not> cmp (f b) k < 0"
      proof
        assume "cmp (f b) k < 0"
        from three_way_trans[OF tw xb this] show False using False by simp
      qed
    qed
    have eq: "dropWhile (\<lambda>a. cmp (f a) k < 0) (x # xs) = x # xs"
      using False by simp
    show ?thesis unfolding eq using False rest by simp
  qed
qed

lemma takeWhile_lt:
  "\<forall>a\<in>set (takeWhile (\<lambda>a. cmp (f a) k < 0) ns). cmp (f a) k < 0"
  using set_takeWhileD by fastforce

lemma three_way_flip:
  "three_way cmp \<Longrightarrow> \<not> cmp a b < 0 \<Longrightarrow> cmp a b \<noteq> 0 \<Longrightarrow> cmp b a < 0"
  unfolding three_way_def
  by (smt (verit, best))

lemma post_gt:
  assumes tw: "three_way cmp"
    and srt: "sorted_wrt (\<lambda>a b. cmp (f a) (f b) < 0) post"
    and ge: "\<forall>b\<in>set post. \<not> cmp (f b) k < 0"
    and nm: "\<forall>b. nxt post = Some b \<longrightarrow> cmp (f b) k \<noteq> 0"
  shows "\<forall>b\<in>set post. cmp k (f b) < 0"
proof (cases post)
  case Nil
  then show ?thesis by simp
next
  case (Cons b0 bs)
  have "cmp (f b0) k \<noteq> 0" using nm Cons by (simp add: nxt_def)
  moreover have "\<not> cmp (f b0) k < 0" using ge Cons by simp
  ultimately have b0: "cmp k (f b0) < 0" using three_way_flip[OF tw] by blast
  have "\<forall>b\<in>set bs. cmp k (f b) < 0"
  proof
    fix b assume "b \<in> set bs"
    then have "cmp (f b0) (f b) < 0" using srt Cons by simp
    then show "cmp k (f b) < 0" by (rule three_way_trans[OF tw b0])
  qed
  then show ?thesis using b0 Cons by simp
qed

lemma match_iff:
  assumes tw: "three_way cmp"
    and srt: "sorted_wrt (\<lambda>a b. cmp (f a) (f b) < 0) (pre @ post)"
    and lt: "\<forall>a\<in>set pre. cmp (f a) k < 0"
    and ge: "\<forall>b\<in>set post. \<not> cmp (f b) k < 0"
  shows "(\<exists>b. nxt post = Some b \<and> cmp (f b) k = 0) = (\<exists>a\<in>set (pre @ post). cmp (f a) k = 0)"
proof
  assume "\<exists>b. nxt post = Some b \<and> cmp (f b) k = 0"
  then show "\<exists>a\<in>set (pre @ post). cmp (f a) k = 0"
    by (cases post) (auto simp: nxt_def)
next
  assume "\<exists>a\<in>set (pre @ post). cmp (f a) k = 0"
  then obtain a where a: "a \<in> set (pre @ post)" and e: "cmp (f a) k = 0" by blast
  have "a \<notin> set pre" using lt e by auto
  then have ap: "a \<in> set post" using a by simp
  then obtain b0 bs where p: "post = b0 # bs" by (cases post) auto
  have "cmp (f b0) k = 0"
  proof (cases "a = b0")
    case True
    then show ?thesis using e by simp
  next
    case False
    then have "a \<in> set bs" using ap p by simp
    then have "cmp (f b0) (f a) < 0" using srt p by (simp add: sorted_wrt_append)
    from three_way_eq_trans[OF tw this e] have "cmp (f b0) k < 0" .
    then show ?thesis using ge p by simp
  qed
  then show "\<exists>b. nxt post = Some b \<and> cmp (f b) k = 0" using p by (simp add: nxt_def)
qed

lemma drawLevel_bound:
  "int lv \<le> max b 0 \<Longrightarrow> int (fst (drawLevel b cs lv)) \<le> max b 0"
  by (induction cs arbitrary: lv) auto

lemma before_after: "before sl ns k @ after sl ns k = ns"
  by (simp add: before_def after_def)

lemma before_lt: "\<forall>a\<in>set (before sl ns k). cmpKey sl (key (nodes sl a)) k < 0"
  unfolding before_def by (rule takeWhile_lt)

lemma after_ge:
  assumes "valid sl ns" "three_way (cmpKey sl)"
  shows "\<forall>b\<in>set (after sl ns k). \<not> cmpKey sl (key (nodes sl b)) k < 0"
  unfolding after_def
  by (rule sorted_dropWhile_ge[OF assms(2) valid_sorted[OF assms(1)]])

lemma findPath_split:
  assumes v: "valid sl ns" and tw: "three_way (cmpKey sl)"
    and n: "n = int (length (forward (nodes sl (header sl))))"
  shows "findPath sl k n = ret (pathUpdate sl (before sl ns k), nxt (after sl ns k))"
proof -
  have v': "valid sl (before sl ns k @ after sl ns k)" using v by (simp only: before_after)
  show ?thesis
    by (rule findPath_valid[OF v' before_lt after_ge[OF v tw] n])
qed

lemma keyMatches_iff:
  assumes v: "valid sl ns" and tw: "three_way (cmpKey sl)"
  shows "keyMatches sl (nxt (after sl ns k)) k = hasKey sl ns k"
proof -
  have srt: "sorted_wrt (\<lambda>a b. cmpKey sl (key (nodes sl a)) (key (nodes sl b)) < 0)
      (before sl ns k @ after sl ns k)"
    using valid_sorted[OF v] by (simp only: before_after)
  have "(\<exists>b. nxt (after sl ns k) = Some b \<and> cmpKey sl (key (nodes sl b)) k = 0) =
        (\<exists>a\<in>set (before sl ns k @ after sl ns k). cmpKey sl (key (nodes sl a)) k = 0)"
    by (rule match_iff[OF tw srt before_lt after_ge[OF v tw]])
  moreover have "keyMatches sl (nxt (after sl ns k)) k =
      (\<exists>b. nxt (after sl ns k) = Some b \<and> cmpKey sl (key (nodes sl b)) k = 0)"
    by (cases "nxt (after sl ns k)") (simp_all add: keyMatches_def)
  ultimately show ?thesis unfolding hasKey_def by (simp only: before_after)
qed

lemma after_gt:
  assumes v: "valid sl ns" and tw: "three_way (cmpKey sl)" and nk: "\<not> hasKey sl ns k"
  shows "\<forall>b\<in>set (after sl ns k). cmpKey sl k (key (nodes sl b)) < 0"
proof (rule post_gt[OF tw _ after_ge[OF v tw]])
  have "sorted_wrt (\<lambda>a b. cmpKey sl (key (nodes sl a)) (key (nodes sl b)) < 0)
      (before sl ns k @ after sl ns k)"
    using valid_sorted[OF v] by (simp only: before_after)
  then show "sorted_wrt (\<lambda>a b. cmpKey sl (key (nodes sl a)) (key (nodes sl b)) < 0) (after sl ns k)"
    by (simp only: sorted_wrt_append)
  have "\<not> keyMatches sl (nxt (after sl ns k)) k" using keyMatches_iff[OF v tw] nk by simp
  then show "\<forall>b. nxt (after sl ns k) = Some b \<longrightarrow> cmpKey sl (key (nodes sl b)) k \<noteq> 0"
    by (auto simp: keyMatches_def)
qed

lemma Insert_insertUnsafe: "Insert sl it = insertUnsafe sl it"
  by (simp add: Insert_def insertUnsafe_def)

lemma Delete_deleteUnsafe: "Delete sl k = deleteUnsafe sl k"
  by (simp add: Delete_def deleteUnsafe_def)

lemma search_split:
  assumes "validR sl ns" "three_way (cmpKey sl)"
  shows "search sl k = ret (pathUpdate sl (before sl ns k), nxt (after sl ns k))"
  unfolding search_def using assms
  by (intro findPath_split) (auto simp: validR_def)

lemma insertUnsafe_nil: "insertUnsafe sl None = ret (False, sl)"
  by (simp add: insertUnsafe_def)

lemma insertUnsafe_panic:
  "getKeyFromItem sl (Some x) = Inl e \<Longrightarrow> insertUnsafe sl (Some x) = Some (Inl e)"
  by (simp add: insertUnsafe_def bindR_def)

lemma insertUnsafe_existing:
  assumes v: "validR sl ns" and tw: "three_way (cmpKey sl)"
    and k: "getKeyFromItem sl (Some x) = Inr k" and ex: "hasKey sl ns k"
  shows "insertUnsafe sl (Some x) = ret (False, sl)"
proof -
  have v': "valid sl ns" using v by (simp add: validR_def)
  show ?thesis
    unfolding insertUnsafe_def
    by (simp add: k bindR_def search_split[OF v tw, unfolded ret_def]
         keyMatches_iff[OF v' tw] ex)
qed

lemma valid_rnd [simp]: "valid (sl\<lparr>rnd := r\<rparr>) ns = valid sl ns"
  by (simp add: valid_def)

lemma pathUpdate_rnd [simp]: "pathUpdate (sl\<lparr>rnd := r\<rparr>) pre = pathUpdate sl pre"
  by (simp add: pathUpdate_def)

lemma randomLevel_bound:
  "0 < maxLevel sl \<Longrightarrow> fst (randomLevel sl) < nat (maxLevel sl)"
  using drawLevel_bound[of 0 "maxLevel sl - 1" "rnd sl"]
  by (simp add: randomLevel_def)

lemma insertUnsafe_new:
  assumes v: "validR sl ns" and tw: "three_way (cmpKey sl)"
    and k: "getKeyFromItem sl (Some x) = Inr k" and nk: "\<not> hasKey sl ns k"
  shows "\<exists>sl'. insertUnsafe sl (Some x) = ret (True, sl') \<and>
     validR sl' (before sl ns k @ nextRef sl # after sl ns k) \<and> sameConfig sl sl' \<and>
     key (nodes sl' (nextRef sl)) = k \<and> item (nodes sl' (nextRef sl)) = Some x \<and>
     (\<forall>a. a \<noteq> nextRef sl \<longrightarrow> key (nodes sl' a) = key (nodes sl a) \<and>
                              item (nodes sl' a) = item (nodes sl a))"
proof -
  obtain newLevel rnd' where rl: "randomLevel sl = (newLevel, rnd')" by (cases "randomLevel sl")
  let ?s = "sl\<lparr>rnd := rnd'\<rparr>"
  let ?node = "\<lparr>item = Some x, key = k, forward = replicate (Suc newLevel) None,
                      backward = None\<rparr> :: ('a, 'b) ItemPtr"
  let ?pre = "before sl ns k" and ?post = "after sl ns k"
  have v0: "valid sl ns" and ml: "0 < maxLevel sl"
    and H: "length (forward (nodes sl (header sl))) = nat (maxLevel sl)"
    using v by (simp_all add: validR_def)
  have vs: "valid ?s (?pre @ ?post)" using v0 by (simp add: before_after)
  have lt: "\<forall>a\<in>set ?pre. cmpKey ?s (key (nodes ?s a)) (key ?node) < 0"
    using before_lt[of sl ns k] by simp
  have gt: "\<forall>b\<in>set ?post. cmpKey ?s (key ?node) (key (nodes ?s b)) < 0"
    using after_gt[OF v0 tw nk] by simp
  have nl: "newLevel < length (forward (nodes ?s (header ?s)))"
    using randomLevel_bound[OF ml] rl H by simp
  from insertNode_valid[OF vs lt gt nl] obtain h' where
    res: "insertNode ?s (pathUpdate ?s ?pre) newLevel ?node =
            Inr (?s\<lparr>level := max (level ?s) newLevel, nodes := h',
                    nextRef := Suc (nextRef ?s), lengthSL := lengthSL ?s + 1\<rparr>)" and
    val: "valid (?s\<lparr>level := max (level ?s) newLevel, nodes := h',
                    nextRef := Suc (nextRef ?s), lengthSL := lengthSL ?s + 1\<rparr>)
           (?pre @ nextRef ?s # ?post)" and
    q1: "\<forall>a. length (forward (h' a)) =
                (if a = nextRef ?s then Suc newLevel else length (forward (nodes ?s a)))" and
    q2: "\<forall>a. key (h' a) = (if a = nextRef ?s then key ?node else key (nodes ?s a))" and
    q3: "\<forall>a. item (h' a) = (if a = nextRef ?s then item ?node else item (nodes ?s a))"
    by (auto simp del: valid_rnd pathUpdate_rnd)
  let ?sl' = "?s\<lparr>level := max (level ?s) newLevel, nodes := h',
                    nextRef := Suc (nextRef ?s), lengthSL := lengthSL ?s + 1\<rparr>"
  have hdr_ne: "header sl \<noteq> nextRef sl" using valid_fresh[OF v0] by auto
  have run: "insertUnsafe sl (Some x) = ret (True, ?sl')"
    unfolding insertUnsafe_def
    using res nk
    by (simp add: k bindR_def search_split[OF v tw, unfolded ret_def]
         keyMatches_iff[OF v0 tw] rl ret_def)
  have vR: "validR ?sl' (?pre @ nextRef sl # ?post)"
    unfolding validR_def using val ml H q1 hdr_ne by simp
  have sc: "sameConfig sl ?sl'" by (simp add: sameConfig_def)
  show ?thesis using run vR sc q2 q3 by (intro exI[of _ ?sl']) simp
qed

lemma deleteUnsafe_absent:
  assumes v: "validR sl ns" and tw: "three_way (cmpKey sl)" and nk: "\<not> hasKey sl ns k"
  shows "deleteUnsafe sl k = ret (False, sl)"
proof -
  have v0: "valid sl ns" using v by (simp add: validR_def)
  have nm: "\<not> keyMatches sl (nxt (after sl ns k)) k" using keyMatches_iff[OF v0 tw] nk by simp
  show ?thesis
    unfolding deleteUnsafe_def using nm
    by (simp add: bindR_def search_split[OF v tw, unfolded ret_def] keyMatches_def
         split: option.splits)
qed

lemma hasKey_after:
  assumes v: "valid sl ns" and tw: "three_way (cmpKey sl)" and ex: "hasKey sl ns k"
  shows "\<exists>c rest. after sl ns k = c # rest \<and> cmpKey sl (key (nodes sl c)) k = 0"
proof -
  have "keyMatches sl (nxt (after sl ns k)) k" using keyMatches_iff[OF v tw] ex by simp
  then show ?thesis
    by (cases "after sl ns k") (simp_all add: keyMatches_def nxt_def)
qed

lemma deleteUnsafe_present:
  assumes v: "validR sl ns" and tw: "three_way (cmpKey sl)" and ex: "hasKey sl ns k"
  shows "\<exists>sl' c rest. deleteUnsafe sl k = ret (True, sl') \<and> after sl ns k = c # rest \<and>
     cmpKey sl (key (nodes sl c)) k = 0 \<and>
     validR sl' (before sl ns k @ rest) \<and> sameConfig sl sl' \<and> nextRef sl' = nextRef sl \<and>
     (\<forall>a. key (nodes sl' a) = key (nodes sl a) \<and> item (nodes sl' a) = item (nodes sl a))"
proof -
  have v0: "valid sl ns" and ml: "0 < maxLevel sl"
    and H: "length (forward (nodes sl (header sl))) = nat (maxLevel sl)"
    using v by (simp_all add: validR_def)
  from hasKey_after[OF v0 tw ex] obtain c rest where
    af: "after sl ns k = c # rest" and ck: "cmpKey sl (key (nodes sl c)) k = 0" by blast
  let ?pre = "before sl ns k"
  have vs: "valid sl (?pre @ c # rest)" using v0 before_after[of sl ns k] af by simp
  from removeNode_valid[OF vs refl] obtain h' l' where
    res: "removeNode sl (pathUpdate sl ?pre) c (length (forward (nodes sl c))) =
            Inr (sl\<lparr>level := l', nodes := h', lengthSL := lengthSL sl - 1\<rparr>)" and
    val: "valid (sl\<lparr>level := l', nodes := h', lengthSL := lengthSL sl - 1\<rparr>) (?pre @ rest)" and
    same: "\<forall>a. length (forward (h' a)) = length (forward (nodes sl a)) \<and>
          key (h' a) = key (nodes sl a) \<and> item (h' a) = item (nodes sl a) \<and>
          ItemPtr.more (h' a) = ItemPtr.more (nodes sl a)"
    by blast
  let ?sl' = "sl\<lparr>level := l', nodes := h', lengthSL := lengthSL sl - 1\<rparr>"
  have run: "deleteUnsafe sl k = ret (True, ?sl')"
    unfolding deleteUnsafe_def
    by (simp add: bindR_def search_split[OF v tw, unfolded ret_def] af nxt_def ck res ret_def)
  have vR: "validR ?sl' (?pre @ rest)"
    unfolding validR_def using val ml H same by simp
  have sc: "sameConfig sl ?sl'" by (simp add: sameConfig_def)
  show ?thesis using run af ck vR sc same
    by (intro exI[of _ ?sl'] exI[of _ c] exI[of _ rest]) simp
qed

lemma more_nlevel:
  fixes a b :: "('t, 'k, 'c) ItemPtrC"
  shows "ItemPtr.more a = ItemPtr.more b \<Longrightarrow> nlevel a = nlevel b \<and> ctxt a = ctxt b"
  by (cases a, cases b) simp

lemma lseg_cong_store:
  "\<forall>a. forward (h' a) = forward (h a) \<Longrightarrow> lseg h' i a xs q = lseg h i a xs q"
  by (rule lseg_frame) simp

lemma valid_payload:
  assumes "\<forall>a. forward (h' a) = forward (nodes sl a) \<and> backward (h' a) = backward (nodes sl a) \<and>
               key (h' a) = key (nodes sl a)"
  shows "valid (sl\<lparr>nodes := h'\<rparr>) ns = valid sl ns"
proof -
  have l: "\<And>i xs. lvl h' i xs = lvl (nodes sl) i xs" using assms by (simp add: lvl_def)
  have s: "\<And>i a xs q. lseg h' i a xs q = lseg (nodes sl) i a xs q"
    using assms by (intro lseg_cong_store) simp
  have b: "\<And>p xs. backs h' p xs = backs (nodes sl) p xs"
    using assms by (intro backs_frame) simp
  show ?thesis unfolding valid_def using assms by (simp add: l s b)
qed

lemma InsertC_panic:
  "getKeyFromItem sl it = Inl e \<Longrightarrow> InsertC sl it cx coins = Some (Inl e)"
  by (simp add: InsertC_def bindR_def)

lemma findPathC_split:
  assumes "validC sl ns" "three_way (cmpKey sl)"
  shows "findPath sl k (maxLevel sl + 1) =
           ret (pathUpdate sl (before sl ns k), nxt (after sl ns k))"
  using assms by (intro findPath_split) (auto simp: validC_def)

lemma InsertC_existing:
  assumes v: "validC sl ns" and tw: "three_way (cmpKey sl)"
    and k: "getKeyFromItem sl it = Inr k" and ex: "hasKey sl ns k"
  shows "\<exists>c rest. after sl ns k = c # rest \<and> cmpKey sl (key (nodes sl c)) k = 0 \<and>
     InsertC sl it cx coins =
       ret (False, sl\<lparr>nodes := (nodes sl)(c := (nodes sl c)\<lparr>item := it, ctxt := cx\<rparr>)\<rparr>,
            coins) \<and>
     validC (sl\<lparr>nodes := (nodes sl)(c := (nodes sl c)\<lparr>item := it, ctxt := cx\<rparr>)\<rparr>) ns"
proof -
  have v0: "valid sl ns" using v by (simp add: validC_def)
  from hasKey_after[OF v0 tw ex] obtain c rest where
    af: "after sl ns k = c # rest" and ck: "cmpKey sl (key (nodes sl c)) k = 0" by blast
  let ?h' = "(nodes sl)(c := (nodes sl c)\<lparr>item := it, ctxt := cx\<rparr>)"
  have run: "InsertC sl it cx coins = ret (False, sl\<lparr>nodes := ?h'\<rparr>, coins)"
    unfolding InsertC_def
    by (simp add: k bindR_def findPathC_split[OF v tw, unfolded ret_def] af nxt_def
          keyMatches_def ck)
  have "valid (sl\<lparr>nodes := ?h'\<rparr>) ns = valid sl ns"
    by (rule valid_payload) simp
  then have "validC (sl\<lparr>nodes := ?h'\<rparr>) ns" using v by (auto simp: validC_def)
  then show ?thesis using af ck run by blast
qed

lemma randomLevelC_bound:
  "0 \<le> maxLevel sl \<Longrightarrow> fst (randomLevelC sl coins) < nat (maxLevel sl + 1)"
  using drawLevel_bound[of 0 "maxLevel sl" coins]
  by (simp add: randomLevelC_def)

lemma InsertC_new:
  assumes v: "validC sl ns" and tw: "three_way (cmpKey sl)"
    and k: "getKeyFromItem sl it = Inr k" and nk: "\<not> hasKey sl ns k"
  shows "\<exists>sl'. InsertC sl it cx coins = ret (True, sl', snd (randomLevelC sl coins)) \<and>
     validC sl' (before sl ns k @ nextRef sl # after sl ns k) \<and> sameConfig sl sl' \<and>
     key (nodes sl' (nextRef sl)) = k \<and> item (nodes sl' (nextRef sl)) = it \<and>
     ctxt (nodes sl' (nextRef sl)) = cx \<and>
     (\<forall>a. a \<noteq> nextRef sl \<longrightarrow> key (nodes sl' a) = key (nodes sl a) \<and>
                              item (nodes sl' a) = item (nodes sl a) \<and>
                              ctxt (nodes sl' a) = ctxt (nodes sl a))"
proof -
  obtain newLevel coins' where rl: "randomLevelC sl coins = (newLevel, coins')"
    by (cases "randomLevelC sl coins")
  let ?node = "\<lparr>item = it, key = k, forward = replicate (Suc newLevel) None,
                backward = None, ctxt = cx, nlevel = int newLevel\<rparr> :: ('a, 'b, 'c) ItemPtrC"
  let ?pre = "before sl ns k" and ?post = "after sl ns k"
  have v0: "valid sl ns" and ml: "0 \<le> maxLevel sl"
    and H: "length (forward (nodes sl (header sl))) = nat (maxLevel sl + 1)"
    and lv: "\<forall>a\<in>set ns. nlevel (nodes sl a) = int (length (forward (nodes sl a))) - 1"
    using v by (simp_all add: validC_def)
  have vs: "valid sl (?pre @ ?post)" using v0 by (simp add: before_after)
  have lt: "\<forall>a\<in>set ?pre. cmpKey sl (key (nodes sl a)) (key ?node) < 0"
    using before_lt[of sl ns k] by simp
  have gt: "\<forall>b\<in>set ?post. cmpKey sl (key ?node) (key (nodes sl b)) < 0"
    using after_gt[OF v0 tw nk] by simp
  have nl: "newLevel < length (forward (nodes sl (header sl)))"
    using randomLevelC_bound[OF ml, of coins] rl H by simp
  from insertNode_valid[OF vs lt gt nl] obtain h' where
    res: "insertNode sl (pathUpdate sl ?pre) newLevel ?node =
            Inr (sl\<lparr>level := max (level sl) newLevel, nodes := h',
                    nextRef := Suc (nextRef sl), lengthSL := lengthSL sl + 1\<rparr>)" and
    val: "valid (sl\<lparr>level := max (level sl) newLevel, nodes := h',
                    nextRef := Suc (nextRef sl), lengthSL := lengthSL sl + 1\<rparr>)
           (?pre @ nextRef sl # ?post)" and
    q1: "\<forall>a. length (forward (h' a)) =
                (if a = nextRef sl then Suc newLevel else length (forward (nodes sl a)))" and
    q2: "\<forall>a. key (h' a) = (if a = nextRef sl then key ?node else key (nodes sl a))" and
    q3: "\<forall>a. item (h' a) = (if a = nextRef sl then item ?node else item (nodes sl a))" and
    q4: "\<forall>a. ItemPtr.more (h' a) =
            (if a = nextRef sl then ItemPtr.more ?node else ItemPtr.more (nodes sl a))"
    by auto
  let ?sl' = "sl\<lparr>level := max (level sl) newLevel, nodes := h',
                    nextRef := Suc (nextRef sl), lengthSL := lengthSL sl + 1\<rparr>"
  have hdr_ne: "header sl \<noteq> nextRef sl" using valid_fresh[OF v0] by auto
  have fresh: "nextRef sl \<notin> set ns" using valid_fresh[OF v0] by auto
  have nm: "\<not> keyMatches sl (nxt ?post) k" using keyMatches_iff[OF v0 tw] nk by simp
  have run: "InsertC sl it cx coins = ret (True, ?sl', coins')"
    unfolding InsertC_def using res nm
    by (simp add: k bindR_def findPathC_split[OF v tw, unfolded ret_def] rl ret_def)
  have mo: "\<And>a. nlevel (h' a) = (if a = nextRef sl then int newLevel else nlevel (nodes sl a)) \<and>
                 ctxt (h' a) = (if a = nextRef sl then cx else ctxt (nodes sl a))"
  proof -
    fix a
    show "nlevel (h' a) = (if a = nextRef sl then int newLevel else nlevel (nodes sl a)) \<and>
                 ctxt (h' a) = (if a = nextRef sl then cx else ctxt (nodes sl a))"
    proof (cases "a = nextRef sl")
      case True
      then have "ItemPtr.more (h' a) = ItemPtr.more ?node" using q4 by simp
      from more_nlevel[OF this] show ?thesis using True by simp
    next
      case False
      then have "ItemPtr.more (h' a) = ItemPtr.more (nodes sl a)" using q4 by simp
      from more_nlevel[OF this] show ?thesis using False by simp
    qed
  qed
  have lv': "\<forall>a\<in>set (?pre @ nextRef sl # ?post).
        nlevel (h' a) = int (length (forward (h' a))) - 1"
  proof
    fix a assume a: "a \<in> set (?pre @ nextRef sl # ?post)"
    show "nlevel (h' a) = int (length (forward (h' a))) - 1"
    proof (cases "a = nextRef sl")
      case True
      then show ?thesis using mo[of a] q1 by simp
    next
      case False
      then have "a \<in> set (?pre @ ?post)" using a by auto
      then have "a \<in> set ns" by (simp only: before_after)
      then show ?thesis using lv mo[of a] q1 False by simp
    qed
  qed
  have vC: "validC ?sl' (?pre @ nextRef sl # ?post)"
    unfolding validC_def using val ml H q1 hdr_ne lv' by simp
  have sc: "sameConfig sl ?sl'" by (simp add: sameConfig_def)
  show ?thesis using run vC sc q2 q3 mo rl by (intro exI[of _ ?sl']) simp
qed

lemma DeleteC_absent:
  assumes v: "validC sl ns" and tw: "three_way (cmpKey sl)" and nk: "\<not> hasKey sl ns k"
  shows "DeleteC sl k = ret (False, sl)"
proof -
  have v0: "valid sl ns" using v by (simp add: validC_def)
  have nm: "\<not> keyMatches sl (nxt (after sl ns k)) k" using keyMatches_iff[OF v0 tw] nk by simp
  show ?thesis
    unfolding DeleteC_def using nm
    by (simp add: bindR_def findPathC_split[OF v tw, unfolded ret_def] keyMatches_def
         split: option.splits)
qed

lemma DeleteC_present:
  assumes v: "validC sl ns" and tw: "three_way (cmpKey sl)" and ex: "hasKey sl ns k"
  shows "\<exists>sl' c rest. DeleteC sl k = ret (True, sl') \<and> after sl ns k = c # rest \<and>
     cmpKey sl (key (nodes sl c)) k = 0 \<and>
     validC sl' (before sl ns k @ rest) \<and> sameConfig sl sl' \<and> nextRef sl' = nextRef sl \<and>
     (\<forall>a. key (nodes sl' a) = key (nodes sl a) \<and> item (nodes sl' a) = item (nodes sl a) \<and>
          ctxt (nodes sl' a) = ctxt (nodes sl a))"
proof -
  have v0: "valid sl ns" and ml: "0 \<le> maxLevel sl"
    and H: "length (forward (nodes sl (header sl))) = nat (maxLevel sl + 1)"
    and lv: "\<forall>a\<in>set ns. nlevel (nodes sl a) = int (length (forward (nodes sl a))) - 1"
    using v by (simp_all add: validC_def)
  from hasKey_after[OF v0 tw ex] obtain c rest where
    af: "after sl ns k = c # rest" and ck: "cmpKey sl (key (nodes sl c)) k = 0" by blast
  let ?pre = "before sl ns k"
  have ns: "ns = ?pre @ c # rest" using before_after[of sl ns k] af by simp
  have vs: "valid sl (?pre @ c # rest)" using v0 ns by simp
  have "c \<in> set ns" by (subst ns) simp
  then have n: "nat (nlevel (nodes sl c) + 1) = length (forward (nodes sl c))"
    using lv by simp
  from removeNode_valid[OF vs n] obtain h' l' where
    res: "removeNode sl (pathUpdate sl ?pre) c (nat (nlevel (nodes sl c) + 1)) =
            Inr (sl\<lparr>level := l', nodes := h', lengthSL := lengthSL sl - 1\<rparr>)" and
    val: "valid (sl\<lparr>level := l', nodes := h', lengthSL := lengthSL sl - 1\<rparr>) (?pre @ rest)" and
    same: "\<forall>a. length (forward (h' a)) = length (forward (nodes sl a)) \<and>
          key (h' a) = key (nodes sl a) \<and> item (h' a) = item (nodes sl a) \<and>
          ItemPtr.more (h' a) = ItemPtr.more (nodes sl a)"
    by blast
  let ?sl' = "sl\<lparr>level := l', nodes := h', lengthSL := lengthSL sl - 1\<rparr>"
  have run: "DeleteC sl k = ret (True, ?sl')"
    unfolding DeleteC_def
    by (simp add: bindR_def findPathC_split[OF v tw, unfolded ret_def] af nxt_def ck res ret_def)
  have mo: "\<And>a. nlevel (h' a) = nlevel (nodes sl a) \<and> ctxt (h' a) = ctxt (nodes sl a)"
    using same more_nlevel by blast
  have sub: "set (?pre @ rest) \<subseteq> set ns" by (subst (2) ns) auto
  have lv': "\<forall>a\<in>set (?pre @ rest). nlevel (h' a) = int (length (forward (h' a))) - 1"
    using lv mo same sub by auto
  have vC: "validC ?sl' (?pre @ rest)"
    unfolding validC_def using val ml H same lv' by simp
  have sc: "sameConfig sl ?sl'" by (simp add: sameConfig_def)
  show ?thesis using run af ck vC sc same mo
    by (intro exI[of _ ?sl'] exI[of _ c] exI[of _ rest]) simp
qed

lemma collect_lseg:
  "lseg h 0 a xs None \<Longrightarrow> collect h (forward (h a) ! 0) acc = ret (acc @ xs)"
proof (induction xs arbitrary: a acc)
  case Nil
  then show ?case by (simp add: collect.simps)
next
  case (Cons b bs)
  then have fb: "forward (h a) ! 0 = Some b" and sb: "lseg h 0 b bs None" by auto
  have "0 < length (forward (h b))" using sb by (cases bs) auto
  then have "collect h (Some b) acc = collect h (forward (h b) ! 0) (acc @ [b])"
    by (subst collect.simps) (simp add: bindR_def fwd_def idx_def)
  then show ?case using Cons.IH[OF sb, of "acc @ [b]"] fb by simp
qed

lemma level0_valid:
  assumes v: "valid sl ns"
  shows "level0 sl = ret ns"
proof -
  have H0: "0 < length (forward (nodes sl (header sl)))"
    using valid_level[OF v] by (cases "forward (nodes sl (header sl))") auto
  have z: "lvl (nodes sl) 0 ns = ns"
    using valid_height[OF v] by (intro lvl_zero) blast
  from valid_lseg[OF v H0] have "lseg (nodes sl) 0 (header sl) ns None" using z by simp
  from collect_lseg[OF this, of "[]"] show ?thesis
    using H0 by (simp add: level0_def First_def fwd_def idx_def bindR_def)
qed

lemma three_way_compareInt: "three_way compareInt"
  by (simp add: three_way_def compareInt_def)

lemma Make_validR:
  "validR (MakeZeroCopySkiplist zk seed m gk gs cmp) []"
  by (simp add: validR_def valid_def MakeZeroCopySkiplist_def Let_def lvl_def)

lemma MakeC_validC:
  "0 \<le> m \<Longrightarrow> \<exists>sl. MakeZeroCopySkiplistC zk zc m gk gs cmp = Inr sl \<and> validC sl [] \<and>
     cmpKey sl = cmp \<and> getKeyFromItem sl = gk"
  by (simp add: validC_def valid_def MakeZeroCopySkiplistC_def lvl_def)

lemma Insert_step:
  assumes v: "validR sl ns" and tw: "three_way (cmpKey sl)"
  shows "(\<exists>e. Insert sl it = Some (Inl e) \<and> getKeyFromItem sl it = Inl e \<and> it \<noteq> None) \<or>
         (\<exists>ok sl' ns'. Insert sl it = Some (Inr (ok, sl')) \<and> validR sl' ns' \<and> sameConfig sl sl')"
proof (cases it)
  case None
  then show ?thesis using v insertUnsafe_nil[of sl]
    by (auto simp: Insert_insertUnsafe ret_def sameConfig_def)
next
  case (Some x)
  show ?thesis
  proof (cases "getKeyFromItem sl (Some x)")
    case (Inl e)
    then show ?thesis using Some insertUnsafe_panic[OF Inl] by (simp add: Insert_insertUnsafe)
  next
    case (Inr k)
    show ?thesis
    proof (cases "hasKey sl ns k")
      case True
      from insertUnsafe_existing[OF v tw Inr True] show ?thesis using Some v
        by (auto simp: Insert_insertUnsafe ret_def sameConfig_def)
    next
      case False
      from insertUnsafe_new[OF v tw Inr False] show ?thesis using Some
        by (auto simp: Insert_insertUnsafe ret_def)
    qed
  qed
qed

lemma Delete_step:
  assumes v: "validR sl ns" and tw: "three_way (cmpKey sl)"
  shows "\<exists>ok sl' ns'. Delete sl k = Some (Inr (ok, sl')) \<and> validR sl' ns' \<and> sameConfig sl sl'"
proof (cases "hasKey sl ns k")
  case True
  from deleteUnsafe_present[OF v tw True] show ?thesis
    by (auto simp: Delete_deleteUnsafe ret_def)
next
  case False
  from deleteUnsafe_absent[OF v tw False] show ?thesis using v
    by (auto simp: Delete_deleteUnsafe ret_def sameConfig_def)
qed

lemma run_validR:
  "validR sl ns \<Longrightarrow> three_way (cmpKey sl) \<Longrightarrow>
   (\<exists>e. run ms sl = Some (Inl e)) \<or>
   (\<exists>sl' ns'. run ms sl = Some (Inr sl') \<and> validR sl' ns' \<and> sameConfig sl sl')"
proof (induction ms arbitrary: sl ns)
  case Nil
  then show ?case by (auto simp: ret_def sameConfig_def)
next
  case (Cons m ms)
  show ?case
  proof (cases m)
    case (DoInsert it)
    from Insert_step[OF Cons.prems, of it] show ?thesis
    proof
      assume "\<exists>e. Insert sl it = Some (Inl e) \<and> getKeyFromItem sl it = Inl e \<and> it \<noteq> None"
      then show ?thesis using DoInsert by (auto simp: bindR_def)
    next
      assume "\<exists>ok sl' ns'. Insert sl it = Some (Inr (ok, sl')) \<and> validR sl' ns' \<and> sameConfig sl sl'"
      then obtain ok sl1 ns1 where i: "Insert sl it = Some (Inr (ok, sl1))"
        and v1: "validR sl1 ns1" and sc: "sameConfig sl sl1" by blast
      have tw1: "three_way (cmpKey sl1)" using sc Cons.prems(2) by (simp add: sameConfig_def)
      have r: "run (m # ms) sl = run ms sl1" using DoInsert i by (simp add: bindR_def)
      from Cons.IH[OF v1 tw1] show ?thesis using r sc by (auto simp: sameConfig_def)
    qed
  next
    case (DoDelete k)
    from Delete_step[OF Cons.prems, of k] obtain ok sl1 ns1 where
      i: "Delete sl k = Some (Inr (ok, sl1))" and v1: "validR sl1 ns1"
      and sc: "sameConfig sl sl1" by blast
    have tw1: "three_way (cmpKey sl1)" using sc Cons.prems(2) by (simp add: sameConfig_def)
    have r: "run (m # ms) sl = run ms sl1" using DoDelete i by (simp add: bindR_def)
    from Cons.IH[OF v1 tw1] show ?thesis using r sc by (auto simp: sameConfig_def)
  qed
qed

lemma InsertC_step:
  assumes v: "validC sl ns" and tw: "three_way (cmpKey sl)"
  shows "(\<exists>e. InsertC sl it cx coins = Some (Inl e) \<and> getKeyFromItem sl it = Inl e) \<or>
         (\<exists>ok sl' coins' ns'. InsertC sl it cx coins = Some (Inr (ok, sl', coins')) \<and>
              validC sl' ns' \<and> sameConfig sl sl')"
proof (cases "getKeyFromItem sl it")
  case (Inl e)
  then show ?thesis using InsertC_panic[OF Inl] by simp
next
  case (Inr k)
  show ?thesis
  proof (cases "hasKey sl ns k")
    case True
    from InsertC_existing[OF v tw Inr True, of cx coins] show ?thesis
      by (auto simp: ret_def sameConfig_def)
  next
    case False
    from InsertC_new[OF v tw Inr False, of cx coins] show ?thesis
      by (auto simp: ret_def)
  qed
qed

lemma DeleteC_step:
  assumes v: "validC sl ns" and tw: "three_way (cmpKey sl)"
  shows "\<exists>ok sl' ns'. DeleteC sl k = Some (Inr (ok, sl')) \<and> validC sl' ns' \<and> sameConfig sl sl'"
proof (cases "hasKey sl ns k")
  case True
  from DeleteC_present[OF v tw True] show ?thesis
    by (auto simp: ret_def)
next
  case False
  from DeleteC_absent[OF v tw False] show ?thesis using v
    by (auto simp: ret_def sameConfig_def)
qed

lemma runC_validC:
  "validC sl ns \<Longrightarrow> three_way (cmpKey sl) \<Longrightarrow>
   (\<exists>e. runC ms sl = Some (Inl e)) \<or>
   (\<exists>sl' ns'. runC ms sl = Some (Inr sl') \<and> validC sl' ns' \<and> sameConfig sl sl')"
proof (induction ms arbitrary: sl ns)
  case Nil
  then show ?case by (auto simp: ret_def sameConfig_def)
next
  case (Cons m ms)
  show ?case
  proof (cases m)
    case (DoInsertC it cx coins)
    from InsertC_step[OF Cons.prems, of it cx coins] show ?thesis
    proof
      assume "\<exists>e. InsertC sl it cx coins = Some (Inl e) \<and> getKeyFromItem sl it = Inl e"
      then show ?thesis using DoInsertC by (auto simp: bindR_def)
    next
      assume "\<exists>ok sl' coins' ns'. InsertC sl it cx coins = Some (Inr (ok, sl', coins')) \<and>
              validC sl' ns' \<and> sameConfig sl sl'"
      then obtain ok sl1 coins1 ns1 where
        i: "InsertC sl it cx coins = Some (Inr (ok, sl1, coins1))"
        and v1: "validC sl1 ns1" and sc: "sameConfig sl sl1" by blast
      have tw1: "three_way (cmpKey sl1)" using sc Cons.prems(2) by (simp add: sameConfig_def)
      have r: "runC (m # ms) sl = runC ms sl1" using DoInsertC i by (simp add: bindR_def)
      from Cons.IH[OF v1 tw1] show ?thesis using r sc by (auto simp: sameConfig_def)
    qed
  next
    case (DoDeleteC k)
    from DeleteC_step[OF Cons.prems, of k] obtain ok sl1 ns1 where
      i: "DeleteC sl k = Some (Inr (ok, sl1))" and v1: "validC sl1 ns1"
      and sc: "sameConfig sl sl1" by blast
    have tw1: "three_way (cmpKey sl1)" using sc Cons.prems(2) by (simp add: sameConfig_def)
    have r: "runC (m # ms) sl = runC ms sl1" using DoDeleteC i by (simp add: bindR_def)
    from Cons.IH[OF v1 tw1] show ?thesis using r sc by (auto simp: sameConfig_def)
  qed
qed

lemmas eval_simps =
  Insert_def Delete_def InsertC_def DeleteC_def search_def findPath_def
  advance.simps keyMatches_def randomLevel_def randomLevelC_def
  insertNode_def removeNode_def MakeZeroCopySkiplist_def MakeZeroCopySkiplistC_def
  bindR_def bindE_def ret_def idx_def fwd_def Let_def compareInt_def testKey_def testSize_def
  level0_def First_def collect.simps

lemma sorted_wrt_either:
  "sorted_wrt P xs \<Longrightarrow> a \<in> set xs \<Longrightarrow> b \<in> set xs \<Longrightarrow> a \<noteq> b \<Longrightarrow> P a b \<or> P b a"
  by (induction xs) auto

lemma valid_strictlyOrdered:
  assumes v: "valid sl ns" and tw: "three_way (cmpKey sl)"
  shows "strictlyOrdered sl"
proof -
  let ?P = "\<lambda>a b. cmpKey sl (key (nodes sl a)) (key (nodes sl b)) < 0"
  have srt: "sorted_wrt ?P ns" using valid_sorted[OF v] .
  have "\<forall>a\<in>set ns. \<forall>b\<in>set ns. a \<noteq> b \<longrightarrow>
            cmpKey sl (key (nodes sl a)) (key (nodes sl b)) \<noteq> 0 \<and>
            key (nodes sl a) \<noteq> key (nodes sl b)"
  proof (intro ballI impI)
    fix a b assume a: "a \<in> set ns" and b: "b \<in> set ns" and ab: "a \<noteq> b"
    from sorted_wrt_either[OF srt a b ab] have "?P a b \<or> ?P b a" .
    then have nz: "cmpKey sl (key (nodes sl a)) (key (nodes sl b)) \<noteq> 0"
      using tw unfolding three_way_def by (metis less_irrefl)
    then have "key (nodes sl a) \<noteq> key (nodes sl b)"
      using three_way_refl[OF tw] by metis
    then show "cmpKey sl (key (nodes sl a)) (key (nodes sl b)) \<noteq> 0 \<and>
            key (nodes sl a) \<noteq> key (nodes sl b)" using nz by simp
  qed
  then show ?thesis
    unfolding strictlyOrdered_def using level0_valid[OF v] srt by (auto simp: ret_def)
qed

lemma Insert_total:
  assumes v: "validR sl ns" and tw: "three_way (cmpKey sl)"
    and tot: "\<forall>x. \<exists>k. getKeyFromItem sl (Some x) = Inr k"
  shows "\<exists>ok sl' ns'. Insert sl it = Some (Inr (ok, sl')) \<and> validR sl' ns' \<and> sameConfig sl sl'"
proof -
  from Insert_step[OF v tw, of it] show ?thesis
  proof
    assume "\<exists>e. Insert sl it = Some (Inl e) \<and> getKeyFromItem sl it = Inl e \<and> it \<noteq> None"
    then obtain e x where "getKeyFromItem sl (Some x) = Inl e" by (cases it) auto
    then show ?thesis using tot by (metis Inl_Inr_False)
  qed
qed

lemma run_total:
  "validR sl ns \<Longrightarrow> three_way (cmpKey sl) \<Longrightarrow>
   \<forall>x. \<exists>k. getKeyFromItem sl (Some x) = Inr k \<Longrightarrow>
   \<exists>sl'. run ms sl = Some (Inr sl')"
proof (induction ms arbitrary: sl ns)
  case Nil
  then show ?case by (simp add: ret_def)
next
  case (Cons m ms)
  show ?case
  proof (cases m)
    case (DoInsert it)
    from Insert_total[OF Cons.prems, of it] obtain ok sl1 ns1 where
      i: "Insert sl it = Some (Inr (ok, sl1))" and v1: "validR sl1 ns1"
      and sc: "sameConfig sl sl1" by blast
    have tw1: "three_way (cmpKey sl1)" using sc Cons.prems(2) by (simp add: sameConfig_def)
    have t1: "\<forall>x. \<exists>k. getKeyFromItem sl1 (Some x) = Inr k"
      using sc Cons.prems(3) by (simp add: sameConfig_def)
    have r: "run (m # ms) sl = run ms sl1" using DoInsert i by (simp add: bindR_def)
    from Cons.IH[OF v1 tw1 t1] show ?thesis using r by simp
  next
    case (DoDelete k)
    from Delete_step[OF Cons.prems(1,2), of k] obtain ok sl1 ns1 where
      i: "Delete sl k = Some (Inr (ok, sl1))" and v1: "validR sl1 ns1"
      and sc: "sameConfig sl sl1" by blast
    have tw1: "three_way (cmpKey sl1)" using sc Cons.prems(2) by (simp add: sameConfig_def)
    have t1: "\<forall>x. \<exists>k. getKeyFromItem sl1 (Some x) = Inr k"
      using sc Cons.prems(3) by (simp add: sameConfig_def)
    have r: "run (m # ms) sl = run ms sl1" using DoDelete i by (simp add: bindR_def)
    from Cons.IH[OF v1 tw1 t1] show ?thesis using r by simp
  qed
qed

lemma runC_total:
  "validC sl ns \<Longrightarrow> three_way (cmpKey sl) \<Longrightarrow>
   \<forall>it. \<exists>k. getKeyFromItem sl it = Inr k \<Longrightarrow>
   \<exists>sl'. runC ms sl = Some (Inr sl')"
proof (induction ms arbitrary: sl ns)
  case Nil
  then show ?case by (simp add: ret_def)
next
  case (Cons m ms)
  show ?case
  proof (cases m)
    case (DoInsertC it cx coins)
    from InsertC_step[OF Cons.prems(1,2), of it cx coins] Cons.prems(3)
    obtain ok sl1 coins1 ns1 where
      i: "InsertC sl it cx coins = Some (Inr (ok, sl1, coins1))" and v1: "validC sl1 ns1"
      and sc: "sameConfig sl sl1" by (metis Inl_Inr_False)
    have tw1: "three_way (cmpKey sl1)" using sc Cons.prems(2) by (simp add: sameConfig_def)
    have t1: "\<forall>it. \<exists>k. getKeyFromItem sl1 it = Inr k"
      using sc Cons.prems(3) by (simp add: sameConfig_def)
    have r: "runC (m # ms) sl = runC ms sl1" using DoInsertC i by (simp add: bindR_def)
    from Cons.IH[OF v1 tw1 t1] show ?thesis using r by simp
  next
    case (DoDeleteC k)
    from DeleteC_step[OF Cons.prems(1,2), of k] obtain ok sl1 ns1 where
      i: "DeleteC sl k = Some (Inr (ok, sl1))" and v1: "validC sl1 ns1"
      and sc: "sameConfig sl sl1" by blast
    have tw1: "three_way (cmpKey sl1)" using sc Cons.prems(2) by (simp add: sameConfig_def)
    have t1: "\<forall>it. \<exists>k. getKeyFromItem sl1 it = Inr k"
      using sc Cons.prems(3) by (simp add: sameConfig_def)
    have r: "runC (m # ms) sl = runC ms sl1" using DoDeleteC i by (simp add: bindR_def)
    from Cons.IH[OF v1 tw1 t1] show ?thesis using r by simp
  qed
qed

lemma Make_cmpKey [simp]:
  "cmpKey (MakeZeroCopySkiplist zk seed m gk gs cmp) = cmp"
  "getKeyFromItem (MakeZeroCopySkiplist zk seed m gk gs cmp) = gk"
  by (simp_all add: MakeZeroCopySkiplist_def Let_def)

section \<open>C1: order invariant\<close>

text \<open>
  Claim C1. Start from a freshly constructed index (either variant; the context variant
  with a height limit that is not negative) whose comparator is a three-way comparison
  of a total order, and run any sequence of Insert and Delete operations. The run does
  not diverge; if it returns an index, the traversal of the level-0 chain from the
  header returns its nodes, their keys are strictly increasing under the comparator,
  and no two of them have equal keys (neither under the comparator nor as values). If
  the key extractor never panics, the run does return an index.
\<close>

theorem level0_keys_strictly_increasing:
  assumes "three_way cmp"
  shows "(run ms (MakeZeroCopySkiplist zk seed m gk gs cmp) \<noteq> None \<and>
          (\<forall>sl. run ms (MakeZeroCopySkiplist zk seed m gk gs cmp) = Some (Inr sl)
                \<longrightarrow> strictlyOrdered sl) \<and>
          ((\<forall>x. \<exists>k. gk (Some x) = Inr k) \<longrightarrow>
             (\<exists>sl. run ms (MakeZeroCopySkiplist zk seed m gk gs cmp) = Some (Inr sl)))) \<and>
         (0 \<le> mc \<longrightarrow>
            (\<exists>sl0. MakeZeroCopySkiplistC zk zc mc gk gs cmp = Inr sl0 \<and>
               runC msC sl0 \<noteq> None \<and>
               (\<forall>sl. runC msC sl0 = Some (Inr sl) \<longrightarrow> strictlyOrdered sl) \<and>
               ((\<forall>it. \<exists>k. gk it = Inr k) \<longrightarrow> (\<exists>sl. runC msC sl0 = Some (Inr sl)))))"
proof (intro conjI impI)
  let ?s = "MakeZeroCopySkiplist zk seed m gk gs cmp"
  have v: "validR ?s []" by (rule Make_validR)
  have tw: "three_way (cmpKey ?s)" using assms by simp
  from run_validR[OF v tw, of ms] show "run ms ?s \<noteq> None" by auto
  show "\<forall>sl. run ms ?s = Some (Inr sl) \<longrightarrow> strictlyOrdered sl"
  proof (intro allI impI)
    fix sl assume r: "run ms ?s = Some (Inr sl)"
    with run_validR[OF v tw, of ms] obtain ns where "validR sl ns" "sameConfig ?s sl" by auto
    then have "valid sl ns" "three_way (cmpKey sl)"
      using tw by (simp_all add: validR_def sameConfig_def)
    then show "strictlyOrdered sl" by (rule valid_strictlyOrdered)
  qed
  assume "\<forall>x. \<exists>k. gk (Some x) = Inr k"
  then have "\<forall>x. \<exists>k. getKeyFromItem ?s (Some x) = Inr k" by simp
  from run_total[OF v tw this] show "\<exists>sl. run ms ?s = Some (Inr sl)" .
next
  assume mc: "0 \<le> mc"
  from MakeC_validC[OF mc, of zk zc gk gs cmp] obtain s where
    mk: "MakeZeroCopySkiplistC zk zc mc gk gs cmp = Inr s" and v: "validC s []"
    and c: "cmpKey s = cmp" and g: "getKeyFromItem s = gk" by blast
  have tw: "three_way (cmpKey s)" using assms c by simp
  have a: "runC msC s \<noteq> None" using runC_validC[OF v tw, of msC] by auto
  have b: "\<forall>sl. runC msC s = Some (Inr sl) \<longrightarrow> strictlyOrdered sl"
  proof (intro allI impI)
    fix sl assume r: "runC msC s = Some (Inr sl)"
    with runC_validC[OF v tw, of msC] obtain ns where "validC sl ns" "sameConfig s sl" by auto
    then have "valid sl ns" "three_way (cmpKey sl)"
      using tw by (simp_all add: validC_def sameConfig_def)
    then show "strictlyOrdered sl" by (rule valid_strictlyOrdered)
  qed
  have d: "(\<forall>it. \<exists>k. gk it = Inr k) \<longrightarrow> (\<exists>sl. runC msC s = Some (Inr sl))"
    using runC_total[OF v tw] g by simp
  show "\<exists>sl0. MakeZeroCopySkiplistC zk zc mc gk gs cmp = Inr sl0 \<and>
               runC msC sl0 \<noteq> None \<and>
               (\<forall>sl. runC msC sl0 = Some (Inr sl) \<longrightarrow> strictlyOrdered sl) \<and>
               ((\<forall>it. \<exists>k. gk it = Inr k) \<longrightarrow> (\<exists>sl. runC msC sl0 = Some (Inr sl)))"
    using mk a b d by blast
qed

theorem level0_keys_strictly_increasing_witness:
  "three_way compareInt \<and>
   (\<exists>sl. run [DoInsert (Some (5, 1)), DoInsert (Some (3, 1)), DoDelete 5, DoInsert (Some (4, 2))]
           (MakeZeroCopySkiplist 0 [True, False, False] 4 testKey testSize compareInt)
         = Some (Inr sl) \<and> strictlyOrdered sl) \<and>
   (0::int) \<le> 2 \<and>
   (\<exists>sl0 sl. MakeZeroCopySkiplistC 0 () 2 testKey testSize compareInt = Inr sl0 \<and>
      runC [DoInsertC (Some (5, 1)) () [True], DoInsertC (Some (3, 1)) () [],
            DoDeleteC 3, DoInsertC (Some (5, 2)) () []] sl0 = Some (Inr sl) \<and>
      strictlyOrdered sl)"
proof -
  let ?ms = "[DoInsert (Some (5, 1)), DoInsert (Some (3, 1)), DoDelete 5,
              DoInsert (Some (4::int, 2::nat))]"
  let ?msC = "[DoInsertC (Some (5::int, 1::nat)) () [True], DoInsertC (Some (3, 1)) () [],
            DoDeleteC 3, DoInsertC (Some (5, 2)) () []]"
  have tw: "three_way compareInt" by (rule three_way_compareInt)
  note inst = level0_keys_strictly_increasing[OF tw, of ?ms 0 "[True, False, False]" 4
      testKey testSize 2 "()" ?msC]
  have r1: "\<exists>sl. run ?ms (MakeZeroCopySkiplist 0 [True, False, False] 4 testKey testSize compareInt)
      = Some (Inr sl)"
    by (simp add: eval_simps)
  have r2: "\<exists>sl0 sl. MakeZeroCopySkiplistC 0 () 2 testKey testSize compareInt = Inr sl0 \<and>
      runC ?msC sl0 = Some (Inr sl)"
    by (simp add: eval_simps)
  show ?thesis using tw inst r1 r2 by (metis Inl_Inr_False sum.inject(2) zero_le_numeral)
qed

lemma lseg_nth_next:
  "lseg h i a xs q \<Longrightarrow> Suc j < length xs \<Longrightarrow>
   i < length (forward (h (xs ! j))) \<and> forward (h (xs ! j)) ! i = Some (xs ! Suc j)"
proof (induction xs arbitrary: a j)
  case Nil
  then show ?case by simp
next
  case (Cons b bs)
  then have sb: "lseg h i b bs q" by simp
  show ?case
  proof (cases j)
    case 0
    then obtain c cs where "bs = c # cs" using Cons.prems(2) by (cases bs) auto
    then show ?thesis using sb 0 by simp
  next
    case (Suc j')
    then have "Suc j' < length bs" using Cons.prems(2) by simp
    from Cons.IH[OF sb this] show ?thesis using Suc by simp
  qed
qed

lemma lseg_last_next:
  "lseg h i a xs q \<Longrightarrow> xs \<noteq> [] \<Longrightarrow>
   i < length (forward (h (last xs))) \<and> forward (h (last xs)) ! i = q"
  using lseg_last[of h i a xs q] by simp

lemma backs_nth:
  "backs h p xs \<Longrightarrow> Suc j < length xs \<Longrightarrow> backward (h (xs ! Suc j)) = Some (xs ! j)"
proof (induction xs arbitrary: p j)
  case Nil
  then show ?case by simp
next
  case (Cons b bs)
  then have sb: "backs h (Some b) bs" by simp
  show ?case
  proof (cases j)
    case 0
    then obtain c cs where "bs = c # cs" using Cons.prems(2) by (cases bs) auto
    then show ?thesis using sb 0 by simp
  next
    case (Suc j')
    then have "Suc j' < length bs" using Cons.prems(2) by simp
    from Cons.IH[OF sb this] show ?thesis using Suc by simp
  qed
qed

lemma backs_hd: "backs h p xs \<Longrightarrow> xs \<noteq> [] \<Longrightarrow> backward (h (hd xs)) = p"
  by (cases xs) auto

lemma valid_links:
  assumes v: "valid sl ns"
  shows "level0 sl = Some (Inr ns)"
    and "Suc j < length ns \<Longrightarrow>
           fwd (nodes sl (ns ! j)) 0 = Inr (Some (ns ! Suc j)) \<and>
           backward (nodes sl (ns ! Suc j)) = Some (ns ! j)"
    and "ns \<noteq> [] \<Longrightarrow> backward (nodes sl (hd ns)) = None \<and>
           fwd (nodes sl (last ns)) 0 = Inr None"
proof -
  show "level0 sl = Some (Inr ns)" using level0_valid[OF v] by (simp add: ret_def)
  have H0: "0 < length (forward (nodes sl (header sl)))"
    using valid_level[OF v] by (cases "forward (nodes sl (header sl))") auto
  have z: "lvl (nodes sl) 0 ns = ns"
    using valid_height[OF v] by (intro lvl_zero) blast
  from valid_lseg[OF v H0] have sg: "lseg (nodes sl) 0 (header sl) ns None" using z by simp
  show "Suc j < length ns \<Longrightarrow>
           fwd (nodes sl (ns ! j)) 0 = Inr (Some (ns ! Suc j)) \<and>
           backward (nodes sl (ns ! Suc j)) = Some (ns ! j)"
    using lseg_nth_next[OF sg, of j] backs_nth[OF valid_backs[OF v], of j]
    by (simp add: fwd_def idx_def)
  show "ns \<noteq> [] \<Longrightarrow> backward (nodes sl (hd ns)) = None \<and>
           fwd (nodes sl (last ns)) 0 = Inr None"
    using lseg_last_next[OF sg] backs_hd[OF valid_backs[OF v]]
    by (simp add: fwd_def idx_def)
qed

lemma valid_doublyLinked: "valid sl ns \<Longrightarrow> doublyLinked sl"
  unfolding doublyLinked_def
  using valid_links[of sl ns] by (intro exI[of _ ns]) (simp add: Next_def Prev_def)

lemma valid_doublyLinkedC: "valid sl ns \<Longrightarrow> doublyLinkedC sl"
  unfolding doublyLinkedC_def
  using valid_links[of sl ns] by (intro exI[of _ ns]) (simp add: NextC_def PrevC_def)

section \<open>C5: backward links mirror the level-0 forward links\<close>

text \<open>
  Claim C5. In every index reached from a freshly constructed one by Insert and Delete
  operations (either variant, under the hypotheses of C1), let the level-0 traversal
  return the nodes \<open>ns\<close>. For all adjacent nodes \<open>A = ns ! j\<close> and \<open>B = ns ! (j + 1)\<close>,
  \<^verbatim>\<open>A.Next()\<close> is \<open>B\<close> and \<^verbatim>\<open>B.Prev()\<close> is \<open>A\<close>; the first node's \<^verbatim>\<open>Prev()\<close> is absent, and
  so is the last node's \<^verbatim>\<open>Next()\<close>.
\<close>

theorem backward_links_mirror_forward:
  assumes "three_way cmp"
  shows "(\<forall>sl. run ms (MakeZeroCopySkiplist zk seed m gk gs cmp) = Some (Inr sl)
                \<longrightarrow> doublyLinked sl) \<and>
         (0 \<le> mc \<longrightarrow>
            (\<exists>sl0. MakeZeroCopySkiplistC zk zc mc gk gs cmp = Inr sl0 \<and>
               (\<forall>sl. runC msC sl0 = Some (Inr sl) \<longrightarrow> doublyLinkedC sl)))"
proof (intro conjI impI allI)
  let ?s = "MakeZeroCopySkiplist zk seed m gk gs cmp"
  have v: "validR ?s []" by (rule Make_validR)
  have tw: "three_way (cmpKey ?s)" using assms by simp
  fix sl assume r: "run ms ?s = Some (Inr sl)"
  with run_validR[OF v tw, of ms] obtain ns where "validR sl ns" by auto
  then have "valid sl ns" by (simp add: validR_def)
  then show "doublyLinked sl" by (rule valid_doublyLinked)
next
  assume mc: "0 \<le> mc"
  from MakeC_validC[OF mc, of zk zc gk gs cmp] obtain s where
    mk: "MakeZeroCopySkiplistC zk zc mc gk gs cmp = Inr s" and v: "validC s []"
    and c: "cmpKey s = cmp" by blast
  have tw: "three_way (cmpKey s)" using assms c by simp
  have b: "\<forall>sl. runC msC s = Some (Inr sl) \<longrightarrow> doublyLinkedC sl"
  proof (intro allI impI)
    fix sl assume r: "runC msC s = Some (Inr sl)"
    with runC_validC[OF v tw, of msC] obtain ns where "validC sl ns" by auto
    then have "valid sl ns" by (simp add: validC_def)
    then show "doublyLinkedC sl" by (rule valid_doublyLinkedC)
  qed
  show "\<exists>sl0. MakeZeroCopySkiplistC zk zc mc gk gs cmp = Inr sl0 \<and>
               (\<forall>sl. runC msC sl0 = Some (Inr sl) \<longrightarrow> doublyLinkedC sl)"
    using mk b by blast
qed

theorem backward_links_mirror_forward_witness:
  "three_way compareInt \<and>
   (\<exists>sl. run [DoInsert (Some (5, 1)), DoInsert (Some (3, 1)), DoInsert (Some (4, 2)), DoDelete 4]
           (MakeZeroCopySkiplist 0 [False, True, False] 4 testKey testSize compareInt)
         = Some (Inr sl) \<and> doublyLinked sl) \<and>
   (0::int) \<le> 2 \<and>
   (\<exists>sl0 sl. MakeZeroCopySkiplistC 0 () 2 testKey testSize compareInt = Inr sl0 \<and>
      runC [DoInsertC (Some (5, 1)) () [True], DoInsertC (Some (3, 1)) () [],
            DoInsertC (Some (4, 1)) () [True, True], DoDeleteC 3] sl0 = Some (Inr sl) \<and>
      doublyLinkedC sl)"
proof -
  let ?ms = "[DoInsert (Some (5, 1)), DoInsert (Some (3, 1)), DoInsert (Some (4, 2)),
              DoDelete (4::int)] :: (int \<times> nat, int) mutation list"
  let ?msC = "[DoInsertC (Some (5::int, 1::nat)) () [True], DoInsertC (Some (3, 1)) () [],
            DoInsertC (Some (4, 1)) () [True, True], DoDeleteC 3]"
  have tw: "three_way compareInt" by (rule three_way_compareInt)
  note inst = backward_links_mirror_forward[OF tw, of ?ms 0 "[False, True, False]" 4
      testKey testSize 2 "()" ?msC]
  have r1: "\<exists>sl. run ?ms (MakeZeroCopySkiplist 0 [False, True, False] 4 testKey testSize compareInt)
      = Some (Inr sl)"
    by (simp add: eval_simps)
  have r2: "\<exists>sl0 sl. MakeZeroCopySkiplistC 0 () 2 testKey testSize compareInt = Inr sl0 \<and>
      runC ?msC sl0 = Some (Inr sl)"
    by (simp add: eval_simps)
  show ?thesis using tw inst r1 r2 by (metis Inl_Inr_False sum.inject(2) zero_le_numeral)
qed

lemma after_subset: "set (after sl ns k) \<subseteq> set ns"
  unfolding after_def by (rule set_dropWhileD[THEN subsetI])

lemma run_reaches_validR:
  assumes "three_way cmp"
    and "run ms (MakeZeroCopySkiplist zk seed m gk gs cmp) = Some (Inr sl)"
    and "level0 sl = Some (Inr ns)"
  shows "validR sl ns \<and> cmpKey sl = cmp \<and> getKeyFromItem sl = gk"
proof -
  let ?s = "MakeZeroCopySkiplist zk seed m gk gs cmp"
  have v: "validR ?s []" by (rule Make_validR)
  have tw: "three_way (cmpKey ?s)" using assms(1) by simp
  from run_validR[OF v tw, of ms] assms(2) obtain ns' where
    v': "validR sl ns'" and sc: "sameConfig ?s sl" by auto
  have "level0 sl = ret ns'" using v' by (intro level0_valid) (simp add: validR_def)
  then have "ns' = ns" using assms(3) by (simp add: ret_def)
  then show ?thesis using v' sc by (simp add: sameConfig_def)
qed

lemma runC_reaches_validC:
  assumes "three_way cmp" and "0 \<le> mc"
    and "MakeZeroCopySkiplistC zk zc mc gk gs cmp = Inr sl0"
    and "runC ms sl0 = Some (Inr sl)"
    and "level0 sl = Some (Inr ns)"
  shows "validC sl ns \<and> cmpKey sl = cmp \<and> getKeyFromItem sl = gk"
proof -
  from MakeC_validC[OF assms(2), of zk zc gk gs cmp] assms(3) have
    v: "validC sl0 []" and c: "cmpKey sl0 = cmp" and g: "getKeyFromItem sl0 = gk" by auto
  have tw: "three_way (cmpKey sl0)" using assms(1) c by simp
  from runC_validC[OF v tw, of ms] assms(4) obtain ns' where
    v': "validC sl ns'" and sc: "sameConfig sl0 sl" by auto
  have "level0 sl = ret ns'" using v' by (intro level0_valid) (simp add: validC_def)
  then have "ns' = ns" using assms(5) by (simp add: ret_def)
  then show ?thesis using v' sc c g by (simp add: sameConfig_def)
qed

section \<open>C2: Insert of an existing key\<close>

text \<open>
  Claim C2 says that Insert of a record whose key is already in the index replaces the
  stored record reference. The variant without tags does not: its second Insert of
  key 5 returns false and leaves the index, and so the stored record \<open>(5, 1)\<close>, as
  they were.
\<close>

theorem Insert_existing_key_keeps_record:
  "Insert freshTest (Some (5, 1)) = Some (Inr (True, oneRecord)) \<and>
   level0 oneRecord = Some (Inr [1]) \<and>
   Insert oneRecord (Some (5, 2)) = Some (Inr (False, oneRecord)) \<and>
   item (nodes oneRecord 1) = Some (5, 1) \<and>
   item (nodes oneRecord 1) \<noteq> Some (5, 2)"
  by (simp add: eval_simps freshTest_def oneRecord_def)

text \<open>
  Claim C2, amended. Let an index be reached from a freshly constructed one by Insert
  and Delete operations (under the hypotheses of C1), and let the key extracted from a
  record compare equal to the key of a node of the level-0 chain. In the context
  variant, Insert returns false and the index it leaves differs from the one before
  only in that node, whose record reference and context are the new ones: topology and
  element count are unchanged. In the variant without tags, Insert returns false and
  leaves the index unchanged, the stored record reference included.
\<close>

theorem Insert_existing_key:
  assumes "three_way cmp"
  shows "(run ms (MakeZeroCopySkiplist zk seed m gk gs cmp) = Some (Inr sl) \<and>
          level0 sl = Some (Inr ns) \<and> gk (Some x) = Inr k \<and>
          (\<exists>a\<in>set ns. cmp (key (nodes sl a)) k = 0)
          \<longrightarrow> Insert sl (Some x) = Some (Inr (False, sl))) \<and>
         (0 \<le> mc \<and> MakeZeroCopySkiplistC zk zc mc gk gs cmp = Inr sl0 \<and>
          runC msC sl0 = Some (Inr slc) \<and>
          level0 slc = Some (Inr nsc) \<and> gk it = Inr kc \<and>
          (\<exists>a\<in>set nsc. cmp (key (nodes slc a)) kc = 0)
          \<longrightarrow> (\<exists>c\<in>set nsc. cmp (key (nodes slc c)) kc = 0 \<and>
                 InsertC slc it cx coins =
                   Some (Inr (False,
                     slc\<lparr>nodes := (nodes slc)(c := (nodes slc c)\<lparr>item := it, ctxt := cx\<rparr>)\<rparr>,
                     coins))))"
proof (intro conjI impI)
  assume a: "run ms (MakeZeroCopySkiplist zk seed m gk gs cmp) = Some (Inr sl) \<and>
          level0 sl = Some (Inr ns) \<and> gk (Some x) = Inr k \<and>
          (\<exists>a\<in>set ns. cmp (key (nodes sl a)) k = 0)"
  from run_reaches_validR[OF assms, of ms zk seed m gk gs sl ns] a have
    v: "validR sl ns" and c: "cmpKey sl = cmp" and g: "getKeyFromItem sl = gk" by auto
  have tw: "three_way (cmpKey sl)" using assms c by simp
  have k: "getKeyFromItem sl (Some x) = Inr k" using a g by simp
  have ex: "hasKey sl ns k" using a c by (simp add: hasKey_def)
  from insertUnsafe_existing[OF v tw k ex]
  show "Insert sl (Some x) = Some (Inr (False, sl))"
    by (simp add: Insert_insertUnsafe ret_def)
next
  assume a: "0 \<le> mc \<and> MakeZeroCopySkiplistC zk zc mc gk gs cmp = Inr sl0 \<and>
          runC msC sl0 = Some (Inr slc) \<and>
          level0 slc = Some (Inr nsc) \<and> gk it = Inr kc \<and>
          (\<exists>a\<in>set nsc. cmp (key (nodes slc a)) kc = 0)"
  from runC_reaches_validC[OF assms, of mc zk zc gk gs sl0 msC slc nsc] a have
    v: "validC slc nsc" and c: "cmpKey slc = cmp" and g: "getKeyFromItem slc = gk" by auto
  have tw: "three_way (cmpKey slc)" using assms c by simp
  have k: "getKeyFromItem slc it = Inr kc" using a g by simp
  have ex: "hasKey slc nsc kc" using a c by (simp add: hasKey_def)
  from InsertC_existing[OF v tw k ex, of cx coins] obtain n rest where
    af: "after slc nsc kc = n # rest" and ck: "cmpKey slc (key (nodes slc n)) kc = 0" and
    run: "InsertC slc it cx coins =
       ret (False, slc\<lparr>nodes := (nodes slc)(n := (nodes slc n)\<lparr>item := it, ctxt := cx\<rparr>)\<rparr>,
            coins)" by blast
  have "n \<in> set nsc" using after_subset[of slc nsc kc] af by auto
  then show "\<exists>c\<in>set nsc. cmp (key (nodes slc c)) kc = 0 \<and>
                 InsertC slc it cx coins =
                   Some (Inr (False,
                     slc\<lparr>nodes := (nodes slc)(c := (nodes slc c)\<lparr>item := it, ctxt := cx\<rparr>)\<rparr>,
                     coins))"
    using ck run c by (auto simp: ret_def)
qed

theorem Insert_existing_key_witness:
  "three_way compareInt \<and>
   run [DoInsert (Some (5, 1))] (MakeZeroCopySkiplist 0 [] 4 testKey testSize compareInt)
     = Some (Inr oneRecord) \<and>
   level0 oneRecord = Some (Inr [1]) \<and> testKey (Some (5, 2)) = Inr 5 \<and>
   compareInt (key (nodes oneRecord 1)) 5 = 0 \<and>
   Insert oneRecord (Some (5, 2)) = Some (Inr (False, oneRecord)) \<and>
   (0::int) \<le> 2 \<and> MakeZeroCopySkiplistC 0 0 2 testKey testSize compareInt = Inr freshTestC \<and>
   runC [DoInsertC (Some (5, 1)) 7 []] freshTestC = Some (Inr oneRecordC) \<and>
   level0 oneRecordC = Some (Inr [1]) \<and>
   compareInt (key (nodes oneRecordC 1)) 5 = 0 \<and>
   InsertC oneRecordC (Some (5, 2)) 9 [True] =
     Some (Inr (False,
       oneRecordC\<lparr>nodes := (nodes oneRecordC)
                      (1 := (nodes oneRecordC 1)\<lparr>item := Some (5, 2), ctxt := 9\<rparr>)\<rparr>,
       [True]))"
proof -
  have tw: "three_way compareInt" by (rule three_way_compareInt)
  have r1: "run [DoInsert (Some (5, 1))] (MakeZeroCopySkiplist 0 [] 4 testKey testSize compareInt)
     = Some (Inr oneRecord)"
    by (simp add: eval_simps freshTest_def oneRecord_def)
  have l1: "level0 oneRecord = Some (Inr [1])"
    by (simp add: eval_simps freshTest_def oneRecord_def)
  have k1: "testKey (Some (5, 2)) = Inr 5" by (simp add: testKey_def)
  have c1: "compareInt (key (nodes oneRecord 1)) 5 = 0"
    by (simp add: eval_simps freshTest_def oneRecord_def)
  have mk: "MakeZeroCopySkiplistC 0 0 2 testKey testSize compareInt = Inr freshTestC"
    by (simp add: eval_simps freshTestC_def eval_nat_numeral)
  have r2: "runC [DoInsertC (Some (5, 1)) 7 []] freshTestC = Some (Inr oneRecordC)"
    by (simp add: eval_simps freshTestC_def oneRecordC_def)
  have l2: "level0 oneRecordC = Some (Inr [1])"
    by (simp add: eval_simps freshTestC_def oneRecordC_def)
  have c2: "compareInt (key (nodes oneRecordC 1)) 5 = 0"
    by (simp add: eval_simps freshTestC_def oneRecordC_def)
  note inst = Insert_existing_key[OF tw, where ms = "[DoInsert (Some (5, 1))]" and zk = 0
      and seed = "[]" and m = 4 and gk = testKey and gs = testSize and sl = oneRecord
      and ns = "[1]" and x = "(5, 2)" and k = 5 and mc = 2 and zc = 0 and ?sl0.0 = freshTestC
      and msC = "[DoInsertC (Some (5, 1)) 7 []]" and slc = oneRecordC and nsc = "[1]"
      and it = "Some (5, 2)" and kc = 5 and cx = 9 and coins = "[True]"]
  have a: "Insert oneRecord (Some (5, 2)) = Some (Inr (False, oneRecord))"
    using inst r1 l1 k1 c1 by simp
  have b: "InsertC oneRecordC (Some (5, 2)) 9 [True] =
     Some (Inr (False,
       oneRecordC\<lparr>nodes := (nodes oneRecordC)
                      (1 := (nodes oneRecordC 1)\<lparr>item := Some (5, 2), ctxt := 9\<rparr>)\<rparr>,
       [True]))"
    using inst mk r2 l2 k1 c2 by simp
  show ?thesis using tw r1 l1 k1 c1 a mk r2 l2 c2 b by simp
qed

section \<open>C10: the unconditional exporter ignores its context argument\<close>

text \<open>
  Claim C10. For every index state and any two context values \<open>c1\<close> and \<open>c2\<close>,
  \<^verbatim>\<open>ToIovecSlice(c1)\<close> and \<^verbatim>\<open>ToIovecSlice(c2)\<close> return the same descriptor list (or
  the same panic, or both do not return), and that result is the one of
  \<^verbatim>\<open>CallbackToIovecSlice\<close> with the predicate that is constantly true.
\<close>

theorem ToIovecSlice_ignores_context:
  "ToIovecSlice sl c1 = ToIovecSlice sl c2 \<and>
   ToIovecSlice sl c1 = CallbackToIovecSlice sl (\<lambda>n. True)"
  by (simp add: ToIovecSlice_def)

end
